theory Spec2Isabelle
  imports Complex_Main "HOL-Library.Log_Nat"
begin

section \<open>Python values and errors\<close>

text \<open>
  The repository is Python. A raised exception is the left summand of a result type
  \<open>py_error + 'a\<close>. Python floats and ints are modelled as mathematical reals (no
  rounding, no NaN, no infinity); a Python dict whose insertion order is observed is an
  association list, a dict that is only looked up is a map.
\<close>

datatype py_error = KeyError | ValueError | TypeError | OverflowError | IndexError

datatype pyval = PyBool bool | PyNum real | PyStr string

type_synonym features = "string \<rightharpoonup> pyval"

section \<open>query\_visualizer.py: QueryFeatureExtractor\<close>

record QueryFeatureExtractor =
  weights :: "(string \<times> real) list"
  threshold :: real

text \<open>\<open>QueryFeatureExtractor.__init__\<close>: the weights dict in insertion order, threshold 4.\<close>

definition QueryFeatureExtractor_init :: QueryFeatureExtractor where
  "QueryFeatureExtractor_init =
     \<lparr> weights = [(''joins'', 2), (''subqueries'', 3), (''aggregations'', 1),
                  (''group_by'', 1), (''having'', 2), (''analytical_fn'', 3),
                  (''length'', 1)],
       threshold = 4 \<rparr>"

text \<open>
  The body of the loop of \<open>compute_complexity\<close>, one equation per (key, weight) item:
  \<open>features[key]\<close> raises KeyError on a missing key; a bool becomes 1 or 0; the item is
  skipped when the key is \<open>length\<close> and the value is at most 150; otherwise
  \<open>val * weight\<close> is added. A string value raises TypeError (at \<open>val <= 150\<close> for
  \<open>length\<close>, at \<open>score += val * weight\<close> for every other key).
\<close>

fun compute_complexity_loop :: "features \<Rightarrow> (string \<times> real) list \<Rightarrow> real \<Rightarrow> py_error + real" where
  "compute_complexity_loop features [] score = Inr score"
| "compute_complexity_loop features ((key, weight) # items) score =
     (case features key of
        None \<Rightarrow> Inl KeyError
      | Some (PyStr s) \<Rightarrow> Inl TypeError
      | Some (PyBool b) \<Rightarrow>
          (let val = (if b then 1 else 0) in
           if key = ''length'' \<and> val \<le> 150
           then compute_complexity_loop features items score
           else compute_complexity_loop features items (score + val * weight))
      | Some (PyNum val) \<Rightarrow>
          (if key = ''length'' \<and> val \<le> 150
           then compute_complexity_loop features items score
           else compute_complexity_loop features items (score + val * weight)))"

definition compute_complexity :: "QueryFeatureExtractor \<Rightarrow> features \<Rightarrow> py_error + real" where
  "compute_complexity self features = compute_complexity_loop features (weights self) 0"

text \<open>
  \<open>classify\<close> after the call of \<open>extract_features\<close> (the SQL parser is external): the
  argument is the dict that \<open>extract_features\<close> returned. A dict with the key
  \<open>error\<close> is returned as it is; otherwise the score and the classification are stored
  in the dict.
\<close>

definition classify :: "QueryFeatureExtractor \<Rightarrow> features \<Rightarrow> py_error + features" where
  "classify self features =
     (if features ''error'' \<noteq> None then Inr features
      else case compute_complexity self features of
             Inl e \<Rightarrow> Inl e
           | Inr score \<Rightarrow>
               Inr (features(''complexity_score'' \<mapsto> PyNum score,
                             ''classification'' \<mapsto>
                               PyStr (if score \<ge> threshold self then ''Complex'' else ''Simple''))))"

text \<open>The value of a field after the bool coercion, when the field is a bool or a number.\<close>

definition coerced :: "features \<Rightarrow> string \<Rightarrow> real option" where
  "coerced features key =
     (case features key of
        Some (PyBool b) \<Rightarrow> Some (if b then 1 else 0)
      | Some (PyNum x) \<Rightarrow> Some x
      | _ \<Rightarrow> None)"

text \<open>The feature record of the scenario of the specification.\<close>

definition scenario_features :: features where
  "scenario_features =
     [''joins'' \<mapsto> PyNum 2, ''subqueries'' \<mapsto> PyNum 1, ''aggregations'' \<mapsto> PyNum 0,
      ''group_by'' \<mapsto> PyBool True, ''having'' \<mapsto> PyBool False,
      ''analytical_fn'' \<mapsto> PyBool False, ''length'' \<mapsto> PyNum 200]"

section \<open>quantum\_prep.py: QuantumPrep\<close>

record QuantumPrep =
  feature_keys :: "string list"

definition QuantumPrep_init :: QuantumPrep where
  "QuantumPrep_init =
     \<lparr> feature_keys = [''joins'', ''subqueries'', ''aggregations'', ''group_by'',
                       ''having'', ''analytical_fn'', ''length''] \<rparr>"

text \<open>
  The first loop of \<open>normalize_features\<close>: \<open>features.get(key, 0)\<close>, a bool replaced
  by 1 or 0, appended to the vector.
\<close>

fun collect_vector :: "features \<Rightarrow> string list \<Rightarrow> pyval list" where
  "collect_vector features [] = []"
| "collect_vector features (key # keys) =
     (let val = (case features key of None \<Rightarrow> PyNum 0 | Some v \<Rightarrow> v);
          val = (case val of PyBool b \<Rightarrow> PyNum (if b then 1 else 0) | _ \<Rightarrow> val)
      in val # collect_vector features keys)"

text \<open>The coerced value of a field as \<open>normalize_features\<close> reads it: 0 when missing.\<close>

definition field_value :: "features \<Rightarrow> string \<Rightarrow> real" where
  "field_value features key =
     (case features key of
        Some (PyBool b) \<Rightarrow> (if b then 1 else 0)
      | Some (PyNum x) \<Rightarrow> x
      | _ \<Rightarrow> 0)"

text \<open>
  A Python float and an element of a numpy array of dtype float are IEEE 754 binary64
  numbers: a finite number, an infinity or a NaN. A finite number is held as its real
  value; the two zeros are not told apart (the program compares the norm with 0 and
  divides, and both zeros compare equal to 0).
\<close>

datatype f64 = Fin real | PInf | NInf | NaN

text \<open>The nearest integer of a real, a tie going to the even one.\<close>

definition round_half_even :: "real \<Rightarrow> int" where
  "round_half_even y =
     (let f = \<lfloor>y\<rfloor>; d = y - of_int f in
      if d < 1 / 2 then f else if 1 / 2 < d then f + 1 else if even f then f else f + 1)"

text \<open>
  The exponent of a real as a binary64 number: that of its binade, and that of the
  subnormal numbers (-1022) below the smallest normal number.
\<close>

definition f64_exponent :: "real \<Rightarrow> int" where
  "f64_exponent x = max \<lfloor>log 2 \<bar>x\<bar>\<rfloor> (- 1022)"

text \<open>
  Rounding to nearest, ties to even, the rounding of every operation below. The numbers of
  exponent \<open>e\<close> are the multiples of \<open>2 ^ (e - 52)\<close>; a magnitude from
  \<open>2 ^ 1024 - 2 ^ 970\<close> on, half-way between the largest number and \<open>2 ^ 1024\<close>,
  rounds to an infinity.
\<close>

definition f64_round :: "real \<Rightarrow> f64" where
  "f64_round x =
     (if x = 0 then Fin 0
      else if 2 ^ 1024 - 2 ^ 970 \<le> \<bar>x\<bar> then (if 0 < x then PInf else NInf)
      else (let ulp = 2 powi (f64_exponent x - 52)
            in Fin (of_int (round_half_even (x / ulp)) * ulp)))"

text \<open>
  Multiplication, addition, square root and division: the exact result rounded, and the
  results of IEEE 754 on the infinities and NaN (numpy warns on them and does not raise).
\<close>

fun f64_mul :: "f64 \<Rightarrow> f64 \<Rightarrow> f64" where
  "f64_mul NaN b = NaN"
| "f64_mul a NaN = NaN"
| "f64_mul (Fin x) (Fin y) = f64_round (x * y)"
| "f64_mul (Fin x) PInf = (if x = 0 then NaN else if 0 < x then PInf else NInf)"
| "f64_mul (Fin x) NInf = (if x = 0 then NaN else if 0 < x then NInf else PInf)"
| "f64_mul PInf (Fin y) = (if y = 0 then NaN else if 0 < y then PInf else NInf)"
| "f64_mul NInf (Fin y) = (if y = 0 then NaN else if 0 < y then NInf else PInf)"
| "f64_mul PInf PInf = PInf"
| "f64_mul PInf NInf = NInf"
| "f64_mul NInf PInf = NInf"
| "f64_mul NInf NInf = PInf"

fun f64_add :: "f64 \<Rightarrow> f64 \<Rightarrow> f64" where
  "f64_add NaN b = NaN"
| "f64_add a NaN = NaN"
| "f64_add (Fin x) (Fin y) = f64_round (x + y)"
| "f64_add (Fin x) PInf = PInf"
| "f64_add (Fin x) NInf = NInf"
| "f64_add PInf (Fin y) = PInf"
| "f64_add NInf (Fin y) = NInf"
| "f64_add PInf PInf = PInf"
| "f64_add NInf NInf = NInf"
| "f64_add PInf NInf = NaN"
| "f64_add NInf PInf = NaN"

fun f64_sqrt :: "f64 \<Rightarrow> f64" where
  "f64_sqrt (Fin x) = (if x < 0 then NaN else f64_round (sqrt x))"
| "f64_sqrt PInf = PInf"
| "f64_sqrt NInf = NaN"
| "f64_sqrt NaN = NaN"

fun f64_div :: "f64 \<Rightarrow> f64 \<Rightarrow> f64" where
  "f64_div NaN b = NaN"
| "f64_div a NaN = NaN"
| "f64_div (Fin x) (Fin y) =
     (if y = 0 then (if x = 0 then NaN else if 0 < x then PInf else NInf)
      else f64_round (x / y))"
| "f64_div (Fin x) PInf = Fin 0"
| "f64_div (Fin x) NInf = Fin 0"
| "f64_div PInf (Fin y) = (if 0 \<le> y then PInf else NInf)"
| "f64_div NInf (Fin y) = (if 0 \<le> y then NInf else PInf)"
| "f64_div PInf PInf = NaN"
| "f64_div PInf NInf = NaN"
| "f64_div NInf PInf = NaN"
| "f64_div NInf NInf = NaN"

text \<open>
  \<open>np.array(vector, dtype=float)\<close> converts every element of the list: a bool to 1.0 or
  0.0 (the loop has replaced the bools already), a number to the nearest binary64 number
  (a Python float is one already; an int that rounds to an infinity raises OverflowError),
  a string as \<open>float(s)\<close> parses it, which raises ValueError on a string that is no number.
  The parser is the parameter \<open>float_of_str\<close>, None where it raises.
\<close>

definition to_float64 :: "(string \<Rightarrow> f64 option) \<Rightarrow> pyval \<Rightarrow> py_error + f64" where
  "to_float64 float_of_str v =
     (case v of
        PyBool b \<Rightarrow> Inr (Fin (if b then 1 else 0))
      | PyNum x \<Rightarrow> (case f64_round x of Fin r \<Rightarrow> Inr (Fin r) | _ \<Rightarrow> Inl OverflowError)
      | PyStr s \<Rightarrow> (case float_of_str s of None \<Rightarrow> Inl ValueError | Some r \<Rightarrow> Inr r))"

fun np_array_float :: "(string \<Rightarrow> f64 option) \<Rightarrow> pyval list \<Rightarrow> py_error + f64 list" where
  "np_array_float float_of_str [] = Inr []"
| "np_array_float float_of_str (v # vs) =
     (case to_float64 float_of_str v of
        Inl e \<Rightarrow> Inl e
      | Inr r \<Rightarrow> map_sum id ((#) r) (np_array_float float_of_str vs))"

text \<open>
  \<open>np.linalg.norm\<close> of a one-dimensional real array is \<open>sqrt(x.dot(x))\<close>. The dot
  product is computed by the BLAS library numpy is linked with, which fixes neither the
  order of the summation nor the use of fused multiply-add: it is the parameter \<open>ddot\<close>.
  \<open>ddot_sequential\<close> is the loop of the reference BLAS, from the first element on, every
  product and every sum rounded.
\<close>

definition ddot_sequential :: "f64 list \<Rightarrow> f64" where
  "ddot_sequential x = fold (\<lambda>xi acc. f64_add acc (f64_mul xi xi)) x (Fin 0)"

definition linalg_norm :: "(f64 list \<Rightarrow> f64) \<Rightarrow> f64 list \<Rightarrow> f64" where
  "linalg_norm ddot x = f64_sqrt (ddot x)"

text \<open>
  \<open>normalize_features\<close>: the vector of the loop as an array, its norm, a norm equal to 0
  replaced by 1, and every element divided by the norm. \<open>tolist\<close> keeps the numbers.
\<close>

definition normalize_features ::
  "(string \<Rightarrow> f64 option) \<Rightarrow> (f64 list \<Rightarrow> f64) \<Rightarrow> QuantumPrep \<Rightarrow> features
     \<Rightarrow> py_error + f64 list" where
  "normalize_features float_of_str ddot self features =
     (case np_array_float float_of_str (collect_vector features (feature_keys self)) of
        Inl e \<Rightarrow> Inl e
      | Inr vector \<Rightarrow>
          (let norm = linalg_norm ddot vector;
               norm = (if norm = Fin 0 then Fin 1 else norm)
           in Inr (map (\<lambda>x. f64_div x norm) vector)))"

text \<open>
  For the statements on \<open>normalize_features\<close>: the coerced values of a record in the
  order of the keys; a real that is a binary64 number; and a dot product that returns a
  finite number within the relative error \<open>2 ^ -49\<close> of the sum of the squares.
\<close>

definition field_values :: "QuantumPrep \<Rightarrow> features \<Rightarrow> real list" where
  "field_values self features = map (field_value features) (feature_keys self)"

definition is_f64 :: "real \<Rightarrow> bool" where
  "is_f64 x \<longleftrightarrow> f64_round x = Fin x"

definition ddot_accurate :: "(f64 list \<Rightarrow> f64) \<Rightarrow> real list \<Rightarrow> bool" where
  "ddot_accurate ddot x \<longleftrightarrow>
     (\<exists>s. ddot (map Fin x) = Fin s \<and>
          \<bar>s - (\<Sum>a\<leftarrow>x. a\<^sup>2)\<bar> \<le> (\<Sum>a\<leftarrow>x. a\<^sup>2) / 2 ^ 49)"

section \<open>quantum\_optimizer.py: table statistics and the join cost\<close>

text \<open>
  The statistics dict: table name to size and selectivity dict. \<open>list(stats.keys())\<close>
  reads the insertion order, so the outer dict is an association list; the inner dict is
  only read with \<open>get\<close>.
\<close>

record table_stats =
  size_rows :: nat
  selectivity :: "string \<rightharpoonup> real"

type_synonym stats = "(string \<times> table_stats) list"

text \<open>
  \<open>get_table_statistics\<close>: the three row counts come from the database (external), the
  selectivities are the constants of the source.
\<close>

definition get_table_statistics :: "nat \<Rightarrow> nat \<Rightarrow> nat \<Rightarrow> stats" where
  "get_table_statistics n_customers n_orders n_products =
     [(''customers'', \<lparr> size_rows = n_customers,
                        selectivity = [''orders'' \<mapsto> 0.3, ''products'' \<mapsto> 0.1] \<rparr>),
      (''orders'', \<lparr> size_rows = n_orders,
                     selectivity = [''customers'' \<mapsto> 0.8, ''products'' \<mapsto> 0.6] \<rparr>),
      (''products'', \<lparr> size_rows = n_products,
                       selectivity = [''customers'' \<mapsto> 0.2, ''orders'' \<mapsto> 0.9] \<rparr>)]"

text \<open>
  The loop of \<open>calculate_join_cost\<close> over \<open>range(1, len(join_order))\<close>, with the state
  (total\_cost, intermediate\_size). \<open>stats[prev_table]\<close> and \<open>stats[current_table]\<close>
  raise KeyError on an unknown table; the selectivity defaults to 0.1.
\<close>

fun join_cost_loop :: "stats \<Rightarrow> string list \<Rightarrow> nat list \<Rightarrow> real \<times> real \<Rightarrow> py_error + real \<times> real" where
  "join_cost_loop stats join_order [] (total_cost, intermediate_size) =
     Inr (total_cost, intermediate_size)"
| "join_cost_loop stats join_order (i # indices) (total_cost, intermediate_size) =
     (let current_table = join_order ! i;
          prev_table = join_order ! (i - 1)
      in case map_of stats prev_table of
           None \<Rightarrow> Inl KeyError
         | Some prev \<Rightarrow>
             (let selectivity = (case selectivity prev current_table of
                                   None \<Rightarrow> 0.1 | Some s \<Rightarrow> s)
              in case map_of stats current_table of
                   None \<Rightarrow> Inl KeyError
                 | Some cur \<Rightarrow>
                     (let join_cost = intermediate_size * real (size_rows cur) * selectivity
                      in join_cost_loop stats join_order indices
                           (total_cost + (intermediate_size + join_cost),
                            intermediate_size * selectivity))))"

definition calculate_join_cost :: "string list \<Rightarrow> stats \<Rightarrow> py_error + real" where
  "calculate_join_cost join_order stats =
     (if length join_order < 2 then Inr 0
      else case map_of stats (join_order ! 0) of
             None \<Rightarrow> Inl KeyError
           | Some first \<Rightarrow>
               map_sum id fst
                 (join_cost_loop stats join_order [1..<length join_order]
                    (0, real (size_rows first))))"

text \<open>
  The cost as the specification words it: a fold over the pairs (p, t) of neighbours of
  the order, with the state (total, intermediate\_size).
\<close>

definition sel_spec :: "stats \<Rightarrow> string \<Rightarrow> string \<Rightarrow> real" where
  "sel_spec stats p t =
     (case map_of stats p of
        None \<Rightarrow> 0.1
      | Some ps \<Rightarrow> (case selectivity ps t of None \<Rightarrow> 0.1 | Some s \<Rightarrow> s))"

definition size_spec :: "stats \<Rightarrow> string \<Rightarrow> real" where
  "size_spec stats t = (case map_of stats t of None \<Rightarrow> 0 | Some ts \<Rightarrow> real (size_rows ts))"

definition cost_spec :: "string list \<Rightarrow> stats \<Rightarrow> real" where
  "cost_spec ord stats =
     (if length ord < 2 then 0
      else fst (fold (\<lambda>(p, t) (total, inter).
                        (total + (inter + inter * size_spec stats t * sel_spec stats p t),
                         inter * sel_spec stats p t))
                  (zip ord (tl ord)) (0, size_spec stats (hd ord))))"

section \<open>quantum\_optimizer.py: enumeration, reduction and the Hamiltonian\<close>

text \<open>
  \<open>itertools.permutations\<close> of a list, in the order of generation: for each position
  \<open>i\<close> in turn, the element at \<open>i\<close> followed by every permutation of the others.
\<close>

function permutations :: "'a list \<Rightarrow> 'a list list" where
  "permutations xs =
     (if xs = [] then [[]]
      else concat (map (\<lambda>i. map ((#) (xs ! i)) (permutations (take i xs @ drop (Suc i) xs)))
                    [0..<length xs]))"
  by pat_completeness auto
termination
  by (relation "measure length") auto

declare permutations.simps [simp del]

record cost_entry =
  order :: "string list"
  cost :: real

text \<open>
  The loop that scores every join order: the list of entries is \<open>order_mapping\<close> (its
  keys are the positions 0, 1, ...), the list of their costs is \<open>costs\<close>.
\<close>

fun score_orders :: "stats \<Rightarrow> string list list \<Rightarrow> py_error + cost_entry list" where
  "score_orders stats [] = Inr []"
| "score_orders stats (ord # join_orders) =
     (case calculate_join_cost ord stats of
        Inl e \<Rightarrow> Inl e
      | Inr c \<Rightarrow> map_sum id ((#) \<lparr> order = ord, cost = c \<rparr>) (score_orders stats join_orders))"

text \<open>\<open>[xs[i] for i in indices]\<close>: IndexError on an index out of range.\<close>

fun index_all :: "'a list \<Rightarrow> nat list \<Rightarrow> py_error + 'a list" where
  "index_all xs [] = Inr []"
| "index_all xs (i # indices) =
     (if i < length xs then map_sum id ((#) (xs ! i)) (index_all xs indices)
      else Inl IndexError)"

text \<open>
  Lines 121 to 128 of \<open>create_quantum_optimization_problem\<close>. \<open>np.argsort\<close> is the
  library's: it is the parameter \<open>argsort\<close>. With its default kind (quicksort, which
  numpy documents as not stable) it returns some permutation of the indices along which
  the costs are sorted; \<open>is_argsort\<close> says that of one call.
\<close>

definition reduce_candidates ::
  "(real list \<Rightarrow> nat list) \<Rightarrow> real list \<Rightarrow> cost_entry list
     \<Rightarrow> py_error + real list \<times> cost_entry list" where
  "reduce_candidates argsort costs order_mapping =
     (if length costs > 4 then
        (let top_indices = take 4 (argsort costs) in
         case index_all costs top_indices of
           Inl e \<Rightarrow> Inl e
         | Inr reduced_costs \<Rightarrow>
             (case index_all order_mapping top_indices of
                Inl e \<Rightarrow> Inl e
              | Inr reduced_mapping \<Rightarrow> Inr (reduced_costs, reduced_mapping)))
      else Inr (costs, order_mapping))"

definition is_argsort :: "(real list \<Rightarrow> nat list) \<Rightarrow> real list \<Rightarrow> bool" where
  "is_argsort argsort costs \<longleftrightarrow>
     length (argsort costs) = length costs \<and> distinct (argsort costs) \<and>
     list_all (\<lambda>i. i < length costs) (argsort costs) \<and>
     sorted (map ((!) costs) (argsort costs))"

text \<open>
  A sort that satisfies \<open>is_argsort\<close> on every list: the stable one. On costs that are
  pairwise different every such sort returns the same indices.
\<close>

definition argsort_stable :: "real list \<Rightarrow> nat list" where
  "argsort_stable costs = sort_key ((!) costs) [0..<length costs]"

text \<open>
  \<open>np.argsort\<close> of a float64 array with the default kind, as numpy (1.25 and later)
  runs it on an x86-64 processor with AVX-512: the sort of the library x86-simd-sort.
  Up to 8 elements are sorted in one 512-bit register of 8 lanes. A lane holds a key and
  its index; the lanes beyond the array hold the key \<open>+infinity\<close> (None here) and the
  index 0.
\<close>

type_synonym lane = "real option \<times> nat"

fun key_min :: "real option \<Rightarrow> real option \<Rightarrow> real option" where
  "key_min None b = b"
| "key_min (Some x) None = Some x"
| "key_min (Some x) (Some y) = Some (min x y)"

fun key_max :: "real option \<Rightarrow> real option \<Rightarrow> real option" where
  "key_max None b = None"
| "key_max (Some x) None = None"
| "key_max (Some x) (Some y) = Some (max x y)"

text \<open>
  One compare-exchange step of the library (\<open>cmp_merge\<close>): lane \<open>i\<close> is compared with
  the lane \<open>partner ! i\<close>; it takes the maximum of the two keys where the mask is set and
  the minimum elsewhere, and it keeps its own index when the key it takes equals its own
  key, otherwise it takes the partner's index.
\<close>

definition cmp_merge :: "lane list \<Rightarrow> nat list \<Rightarrow> bool list \<Rightarrow> lane list" where
  "cmp_merge zmm partner opmask =
     map (\<lambda>i. case (zmm ! i, zmm ! (partner ! i)) of
                 ((in1, index1), (in2, index2)) \<Rightarrow>
                   (let tmp_key = (if opmask ! i then key_max in2 in1 else key_min in2 in1)
                    in (tmp_key, if tmp_key = in1 then index1 else index2)))
       [0..<8]"

text \<open>
  The bitonic network of the library for one register (\<open>sort_zmm_64bit\<close>): six steps,
  with the lane permutations \<open>shuffle(1,1,1,1)\<close>, \<open>NETWORK_64BIT_1\<close>, \<open>NETWORK_64BIT_2\<close>
  and \<open>NETWORK_64BIT_3\<close> and the masks 0xAA, 0xCC and 0xF0 (bit \<open>i\<close> is lane \<open>i\<close>).
\<close>

definition sort_zmm_64bit :: "lane list \<Rightarrow> lane list" where
  "sort_zmm_64bit zmm =
     (let swap_pairs = [1, 0, 3, 2, 5, 4, 7, 6];
          network_1 = [3, 2, 1, 0, 7, 6, 5, 4];
          network_2 = [7, 6, 5, 4, 3, 2, 1, 0];
          network_3 = [2, 3, 0, 1, 6, 7, 4, 5];
          mask_AA = [False, True, False, True, False, True, False, True];
          mask_CC = [False, False, True, True, False, False, True, True];
          mask_F0 = [False, False, False, False, True, True, True, True];
          zmm = cmp_merge zmm swap_pairs mask_AA;
          zmm = cmp_merge zmm network_1 mask_CC;
          zmm = cmp_merge zmm swap_pairs mask_AA;
          zmm = cmp_merge zmm network_2 mask_F0;
          zmm = cmp_merge zmm network_3 mask_CC;
          zmm = cmp_merge zmm swap_pairs mask_AA
      in zmm)"

text \<open>
  \<open>argsort_8_64bit\<close>: the index array starts as 0, 1, ..., n - 1; the keys are
  gathered, the register is sorted and the first n indices are stored.
\<close>

definition argsort_8_64bit :: "real list \<Rightarrow> nat list" where
  "argsort_8_64bit arr =
     (let n = length arr;
          zmm = map (\<lambda>i. if i < n then (Some (arr ! i), i) else (None, 0)) [0..<8]
      in map snd (take n (sort_zmm_64bit zmm)))"

text \<open>
  An array of at most one element is left as it is. Arrays of more than 8 elements take
  wider networks and a partitioning quicksort of the library; they are the parameter
  \<open>wider\<close>. The program sorts the 6 costs of its three tables.
\<close>

definition np_argsort_avx512 :: "(real list \<Rightarrow> nat list) \<Rightarrow> real list \<Rightarrow> nat list" where
  "np_argsort_avx512 wider arr =
     (if length arr \<le> 1 then [0..<length arr]
      else if length arr \<le> 8 then argsort_8_64bit arr
      else wider arr)"

text \<open>\<open>format(i, '0{w}b')\<close>: the binary digits of \<open>i\<close>, padded with zeros to width \<open>w\<close>.\<close>

fun bin_digits :: "nat \<Rightarrow> string" where
  "bin_digits n =
     (if n < 2 then [if n = 0 then CHR ''0'' else CHR ''1'']
      else bin_digits (n div 2) @ [if n mod 2 = 0 then CHR ''0'' else CHR ''1''])"

declare bin_digits.simps [simp del]

definition format_bin :: "nat \<Rightarrow> nat \<Rightarrow> string" where
  "format_bin w i = replicate (w - length (bin_digits i)) CHR ''0'' @ bin_digits i"

text \<open>
  \<open>build_hamiltonian\<close>: the list of (Pauli term, coefficient) handed to
  \<open>SparsePauliOp.from_list\<close>, one item per state. \<open>int(np.ceil(np.log2(0)))\<close> raises
  OverflowError; for a positive length \<open>n\<close> the number of qubits is
  \<open>nat \<lceil>log 2 (real n)\<rceil>\<close>, which the library's \<open>ceillog2 n\<close> is by definition.
\<close>

definition build_hamiltonian :: "real list \<Rightarrow> py_error + (string \<times> real) list" where
  "build_hamiltonian costs =
     (let num_states = length costs in
      if num_states = 0 then Inl OverflowError
      else
        (let num_qubits = ceillog2 num_states in
         Inr (map (\<lambda>i. if i < length costs
                       then (map (\<lambda>bit. if bit = CHR ''0'' then CHR ''I'' else CHR ''Z'')
                               (format_bin num_qubits i),
                             costs ! i)
                       else (replicate num_qubits CHR ''I'', 1000000))
                [0..<2 ^ num_qubits])))"

definition create_quantum_optimization_problem ::
  "(real list \<Rightarrow> nat list) \<Rightarrow> stats
     \<Rightarrow> py_error + (string \<times> real) list \<times> cost_entry list \<times> real list" where
  "create_quantum_optimization_problem argsort stats =
     (let tables = map fst stats;
          join_orders = permutations tables
      in case score_orders stats join_orders of
           Inl e \<Rightarrow> Inl e
         | Inr order_mapping \<Rightarrow>
             (let costs = map cost order_mapping in
              case reduce_candidates argsort costs order_mapping of
                Inl e \<Rightarrow> Inl e
              | Inr (reduced_costs, reduced_mapping) \<Rightarrow>
                  (case build_hamiltonian reduced_costs of
                     Inl e \<Rightarrow> Inl e
                   | Inr hamiltonian \<Rightarrow> Inr (hamiltonian, reduced_mapping, reduced_costs))))"

section \<open>quantum\_optimizer.py: the solver step and the selection\<close>

text \<open>
  The optimizer object: whether \<open>self.sampler\<close> is not None, \<open>use_real_hardware\<close>, and
  the name of \<open>self.backend\<close> (None when there is no backend).
\<close>

record QuantumQueryOptimizer =
  sampler :: bool
  use_real_hardware :: bool
  backend :: "string option"

type_synonym distribution = "(int \<times> real) list"

text \<open>
  What the external solver does in one run. \<open>hardware_run\<close>: the real-hardware branch
  (transpile, submit, wait, \<open>job.result()\<close>) raises (None) or returns the job's result.
  \<open>simulator_run\<close>: the QAOA call raises (None), or returns a result without the
  attribute \<open>eigenstate\<close> (Some None), or a result whose eigenstate is a dict.
\<close>

record 'r solver_run =
  hardware_run :: "'r option"
  simulator_run :: "distribution option option"

text \<open>\<open>np.argmin\<close>: the index of the first occurrence of the minimum; ValueError on [].\<close>

fun argmin_loop :: "real list \<Rightarrow> nat \<Rightarrow> nat \<Rightarrow> real \<Rightarrow> nat" where
  "argmin_loop [] i best_i best = best_i"
| "argmin_loop (x # xs) i best_i best =
     (if x < best then argmin_loop xs (Suc i) i x else argmin_loop xs (Suc i) best_i best)"

definition np_argmin :: "real list \<Rightarrow> py_error + nat" where
  "np_argmin xs = (case xs of [] \<Rightarrow> Inl ValueError | x # rest \<Rightarrow> Inr (argmin_loop rest 1 0 x))"

text \<open>
  The classical selection of \<open>run_quantum_optimization\<close>, written twice in the source
  (no sampler, and the exception handler): the dict \<open>{idx: 1.0}\<close>.
\<close>

definition classical_selection :: "real list option \<Rightarrow> py_error + distribution" where
  "classical_selection reduced_costs =
     (case reduced_costs of
        Some costs \<Rightarrow> (case np_argmin costs of
                         Inl e \<Rightarrow> Inl e
                       | Inr idx \<Rightarrow> Inr [(int idx, 1)])
      | None \<Rightarrow> Inr [(0, 1)])"

text \<open>\<open>{i: 1.0/num_states for i in range(num_states)}\<close>.\<close>

definition uniform_probabilities :: "real list option \<Rightarrow> distribution" where
  "uniform_probabilities reduced_costs =
     (let num_states = (case reduced_costs of Some costs \<Rightarrow> length costs | None \<Rightarrow> 4)
      in map (\<lambda>i. (int i, 1 / real num_states)) [0..<num_states])"

definition run_quantum_optimization ::
  "QuantumQueryOptimizer \<Rightarrow> 'r solver_run \<Rightarrow> real list option \<Rightarrow> py_error + distribution" where
  "run_quantum_optimization self run reduced_costs =
     (if \<not> sampler self then classical_selection reduced_costs
      else if use_real_hardware self \<and> backend self \<noteq> None then
        (case hardware_run run of
           None \<Rightarrow> classical_selection reduced_costs
         | Some result \<Rightarrow> Inr (uniform_probabilities reduced_costs))
      else
        (case simulator_run run of
           None \<Rightarrow> classical_selection reduced_costs
         | Some (Some eigenstate) \<Rightarrow> Inr eigenstate
         | Some None \<Rightarrow> Inr (uniform_probabilities reduced_costs)))"

record recommendation =
  join_order :: "string list"
  predicted_cost :: real
  confidence :: real
  all_orders :: "cost_entry list"
  probabilities :: distribution
  quantum_hardware_used :: bool
  backend_name :: string

text \<open>
  The scan of \<open>optimize_query\<close> over \<open>probabilities.items()\<close>; \<open>state in order_mapping\<close>
  holds for the keys 0 to n - 1 of the mapping.
\<close>

fun best_state_loop :: "nat \<Rightarrow> distribution \<Rightarrow> real \<times> int \<Rightarrow> real \<times> int" where
  "best_state_loop n [] (best_prob, best_order_idx) = (best_prob, best_order_idx)"
| "best_state_loop n ((state, prob) # items) (best_prob, best_order_idx) =
     (if prob > best_prob \<and> 0 \<le> state \<and> state < int n
      then best_state_loop n items (prob, state)
      else best_state_loop n items (best_prob, best_order_idx))"

text \<open>\<open>order_mapping[k]\<close>: KeyError when the key is not in the dict.\<close>

definition mapping_get :: "cost_entry list \<Rightarrow> int \<Rightarrow> py_error + cost_entry" where
  "mapping_get order_mapping k =
     (if 0 \<le> k \<and> k < int (length order_mapping) then Inr (order_mapping ! nat k)
      else Inl KeyError)"

text \<open>Lines 273 to 322 of \<open>optimize_query\<close>: from the distribution to the returned dict.\<close>

definition select_recommendation ::
  "QuantumQueryOptimizer \<Rightarrow> cost_entry list \<Rightarrow> real list \<Rightarrow> distribution
     \<Rightarrow> py_error + recommendation" where
  "select_recommendation self order_mapping costs probs =
     (case best_state_loop (length order_mapping) probs (- 1, - 1) of
        (best_prob, best_order_idx) \<Rightarrow>
          if best_order_idx \<noteq> - 1 then
            (case mapping_get order_mapping best_order_idx of
               Inl e \<Rightarrow> Inl e
             | Inr best \<Rightarrow>
                 Inr \<lparr> join_order = order best,
                       predicted_cost = cost best,
                       confidence = best_prob,
                       all_orders = order_mapping,
                       probabilities = probs,
                       quantum_hardware_used = (use_real_hardware self \<and> backend self \<noteq> None),
                       backend_name = (case backend self of
                                         Some name \<Rightarrow> name | None \<Rightarrow> ''simulator'') \<rparr>)
          else
            (case np_argmin costs of
               Inl e \<Rightarrow> Inl e
             | Inr best_classical_idx \<Rightarrow>
                 (case mapping_get order_mapping (int best_classical_idx) of
                    Inl e \<Rightarrow> Inl e
                  | Inr best \<Rightarrow>
                      Inr \<lparr> join_order = order best,
                            predicted_cost = cost best,
                            confidence = 0.9,
                            all_orders = order_mapping,
                            probabilities = [(int best_classical_idx, 0.9)],
                            quantum_hardware_used = False,
                            backend_name = ''classical_fallback'' \<rparr>)))"

text \<open>
  The selection step: \<open>run_quantum_optimization\<close> on the encoded problem, then the scan.
  The Hamiltonian is handed to the external solver only.
\<close>

definition select ::
  "QuantumQueryOptimizer \<Rightarrow> 'r solver_run \<Rightarrow> (string \<times> real) list \<Rightarrow> cost_entry list
     \<Rightarrow> real list \<Rightarrow> py_error + recommendation" where
  "select self run hamiltonian order_mapping costs =
     (case run_quantum_optimization self run (Some costs) of
        Inl e \<Rightarrow> Inl e
      | Inr probs \<Rightarrow> select_recommendation self order_mapping costs probs)"

text \<open>\<open>optimize_query\<close>; the statistics are what \<open>get_table_statistics\<close> read.\<close>

definition optimize_query ::
  "QuantumQueryOptimizer \<Rightarrow> 'r solver_run \<Rightarrow> (real list \<Rightarrow> nat list) \<Rightarrow> stats
     \<Rightarrow> py_error + recommendation" where
  "optimize_query self run argsort stats =
     (case create_quantum_optimization_problem argsort stats of
        Inl e \<Rightarrow> Inl e
      | Inr (hamiltonian, order_mapping, costs) \<Rightarrow>
          select self run hamiltonian order_mapping costs)"

section \<open>Concrete statistics\<close>

text \<open>The three tables of the end-to-end scenario of the specification.\<close>

definition scenario_stats :: stats where
  "scenario_stats =
     [(''A'', \<lparr> size_rows = 10, selectivity = [''B'' \<mapsto> 0.3, ''C'' \<mapsto> 0.1] \<rparr>),
      (''B'', \<lparr> size_rows = 100, selectivity = [''C'' \<mapsto> 0.6, ''A'' \<mapsto> 0.8] \<rparr>),
      (''C'', \<lparr> size_rows = 5, selectivity = [''A'' \<mapsto> 0.2, ''B'' \<mapsto> 0.9] \<rparr>)]"

text \<open>
  Three tables whose pairwise selectivities are not all equal (1/2 from A, 1/4 towards A),
  with sizes 1, 10 and 10.
\<close>

definition tie_stats :: stats where
  "tie_stats =
     [(''A'', \<lparr> size_rows = 1, selectivity = [''B'' \<mapsto> 0.5, ''C'' \<mapsto> 0.5] \<rparr>),
      (''B'', \<lparr> size_rows = 10, selectivity = [''A'' \<mapsto> 0.25, ''C'' \<mapsto> 0.5] \<rparr>),
      (''C'', \<lparr> size_rows = 10, selectivity = [''A'' \<mapsto> 0.25, ''B'' \<mapsto> 0.5] \<rparr>)]"

text \<open>The six candidates of the scenario, in the order of enumeration, with their costs.\<close>

definition scenario_candidates :: "cost_entry list" where
  "scenario_candidates =
     [\<lparr> order = [''A'', ''B'', ''C''], cost = 322 \<rparr>,
      \<lparr> order = [''A'', ''C'', ''B''], cost = 106 \<rparr>,
      \<lparr> order = [''B'', ''A'', ''C''], cost = 1020 \<rparr>,
      \<lparr> order = [''B'', ''C'', ''A''], cost = 580 \<rparr>,
      \<lparr> order = [''C'', ''A'', ''B''], cost = 46 \<rparr>,
      \<lparr> order = [''C'', ''B'', ''A''], cost = 991 / 2 \<rparr>]"

text \<open>
  Three tables A, B and C of 1, 0 and 1 rows, every selectivity 1 but the one from B to A,
  which is 1/4; and their six candidates in the order of enumeration, with the costs
  3, 3, 0, 0, 3 and 2.25.
\<close>

definition tie_break_stats :: stats where
  "tie_break_stats =
     [(''A'', \<lparr> size_rows = 1, selectivity = [''B'' \<mapsto> 1, ''C'' \<mapsto> 1] \<rparr>),
      (''B'', \<lparr> size_rows = 0, selectivity = [''A'' \<mapsto> 0.25, ''C'' \<mapsto> 1] \<rparr>),
      (''C'', \<lparr> size_rows = 1, selectivity = [''A'' \<mapsto> 1, ''B'' \<mapsto> 1] \<rparr>)]"

definition tie_break_candidates :: "cost_entry list" where
  "tie_break_candidates =
     [\<lparr> order = [''A'', ''B'', ''C''], cost = 3 \<rparr>,
      \<lparr> order = [''A'', ''C'', ''B''], cost = 3 \<rparr>,
      \<lparr> order = [''B'', ''A'', ''C''], cost = 0 \<rparr>,
      \<lparr> order = [''B'', ''C'', ''A''], cost = 0 \<rparr>,
      \<lparr> order = [''C'', ''A'', ''B''], cost = 3 \<rparr>,
      \<lparr> order = [''C'', ''B'', ''A''], cost = 9 / 4 \<rparr>]"

text \<open>
  The solver is unavailable (no sampler) or the branch that \<open>run_quantum_optimization\<close>
  takes raises.
\<close>

definition solver_fails :: "QuantumQueryOptimizer \<Rightarrow> 'r solver_run \<Rightarrow> bool" where
  "solver_fails self run \<longleftrightarrow>
     \<not> sampler self \<or>
     (if use_real_hardware self \<and> backend self \<noteq> None
      then hardware_run run = None else simulator_run run = None)"

text \<open>
  Optimizer objects as \<open>setup_quantum_backend\<close> leaves them: no sampler at all; a real
  backend; the local simulator (\<open>use_real_hardware=False\<close>, as app.py constructs it).
\<close>

definition no_sampler_optimizer :: QuantumQueryOptimizer where
  "no_sampler_optimizer = \<lparr> sampler = False, use_real_hardware = True, backend = None \<rparr>"

definition hardware_optimizer :: QuantumQueryOptimizer where
  "hardware_optimizer =
     \<lparr> sampler = True, use_real_hardware = True, backend = Some ''ibm_backend'' \<rparr>"

definition simulator_optimizer :: QuantumQueryOptimizer where
  "simulator_optimizer = \<lparr> sampler = True, use_real_hardware = False, backend = None \<rparr>"

text \<open>
  Runs of the solver; a job's result is modelled by its list of measurement counts. In
  \<open>failing_run\<close> both branches raise; in \<open>counts_run\<close> the job returns counts; in
  \<open>heavy_run\<close> and \<open>weighted_run\<close> the simulator returns an eigenstate.
\<close>

definition failing_run :: "nat list solver_run" where
  "failing_run = \<lparr> hardware_run = None, simulator_run = None \<rparr>"

definition counts_run :: "nat list solver_run" where
  "counts_run = \<lparr> hardware_run = Some [512, 0, 0, 512], simulator_run = None \<rparr>"

definition heavy_run :: "nat list solver_run" where
  "heavy_run = \<lparr> hardware_run = None, simulator_run = Some (Some [(0, 2), (1, 1)]) \<rparr>"

definition weighted_run :: "nat list solver_run" where
  "weighted_run = \<lparr> hardware_run = None, simulator_run = Some (Some [(0, 1 / 4), (1, 3 / 4)]) \<rparr>"

text \<open>The reduced problem of the scenario: the four cheapest candidates and their encoding.\<close>

definition scenario_reduced :: "cost_entry list" where
  "scenario_reduced =
     [\<lparr> order = [''C'', ''A'', ''B''], cost = 46 \<rparr>,
      \<lparr> order = [''A'', ''C'', ''B''], cost = 106 \<rparr>,
      \<lparr> order = [''A'', ''B'', ''C''], cost = 322 \<rparr>,
      \<lparr> order = [''C'', ''B'', ''A''], cost = 991 / 2 \<rparr>]"

definition scenario_hamiltonian :: "(string \<times> real) list" where
  "scenario_hamiltonian = [(''II'', 46), (''IZ'', 106), (''ZI'', 322), (''ZZ'', 991 / 2)]"

text \<open>
  Three feature records: one join and one subquery; \<open>2 ^ 600\<close> joins; and a \<open>joins\<close>
  field of \<open>2 ^ -600\<close>. The other fields are missing.
\<close>

definition unit_pair_features :: features where
  "unit_pair_features = [''joins'' \<mapsto> PyNum 1, ''subqueries'' \<mapsto> PyNum 1]"

definition huge_features :: features where
  "huge_features = [''joins'' \<mapsto> PyNum (2 ^ 600)]"

definition tiny_features :: features where
  "tiny_features = [''joins'' \<mapsto> PyNum (1 / 2 ^ 600)]"

section \<open>Properties of the complexity score\<close>

lemma compute_complexity_loop_step:
  assumes "coerced features key = Some v"
  shows "compute_complexity_loop features ((key, weight) # items) score =
         compute_complexity_loop features items
           (score + (if key = ''length'' \<and> v \<le> 150 then 0 else v * weight))"
  using assms
  by (auto simp: coerced_def split: option.splits pyval.splits if_splits)

text \<open>
  Claim C9. With the weights of the constructor, \<open>compute_complexity\<close> adds
  \<open>weight * value\<close> for the six other fields and adds the length (weight 1) exactly when
  the length is greater than 150; a length of at most 150 contributes nothing. On the
  scenario's features the score is 208, and \<open>classify\<close> stores the score 208 and the
  classification Complex (threshold 4).
\<close>

theorem compute_complexity_length_exempt:
  "(coerced features ''joins'' = Some j \<and> coerced features ''subqueries'' = Some s \<and>
    coerced features ''aggregations'' = Some a \<and> coerced features ''group_by'' = Some g \<and>
    coerced features ''having'' = Some h \<and> coerced features ''analytical_fn'' = Some f \<and>
    coerced features ''length'' = Some l
    \<longrightarrow> compute_complexity QueryFeatureExtractor_init features =
          Inr (2 * j + 3 * s + 1 * a + 1 * g + 2 * h + 3 * f + (if l \<le> 150 then 0 else l * 1)))
   \<and> compute_complexity QueryFeatureExtractor_init scenario_features = Inr 208
   \<and> (\<exists>r. classify QueryFeatureExtractor_init scenario_features = Inr r
          \<and> r ''complexity_score'' = Some (PyNum 208)
          \<and> r ''classification'' = Some (PyStr ''Complex''))"
proof (intro conjI impI)
  assume c: "coerced features ''joins'' = Some j \<and> coerced features ''subqueries'' = Some s \<and>
    coerced features ''aggregations'' = Some a \<and> coerced features ''group_by'' = Some g \<and>
    coerced features ''having'' = Some h \<and> coerced features ''analytical_fn'' = Some f \<and>
    coerced features ''length'' = Some l"
  then show "compute_complexity QueryFeatureExtractor_init features =
          Inr (2 * j + 3 * s + 1 * a + 1 * g + 2 * h + 3 * f + (if l \<le> 150 then 0 else l * 1))"
    by (simp add: compute_complexity_def QueryFeatureExtractor_init_def
        compute_complexity_loop_step del: compute_complexity_loop.simps(2))
next
  have s: "compute_complexity QueryFeatureExtractor_init scenario_features = Inr 208"
    by (simp add: compute_complexity_def QueryFeatureExtractor_init_def scenario_features_def)
  show "compute_complexity QueryFeatureExtractor_init scenario_features = Inr 208"
    by (rule s)
  show "\<exists>r. classify QueryFeatureExtractor_init scenario_features = Inr r
          \<and> r ''complexity_score'' = Some (PyNum 208)
          \<and> r ''classification'' = Some (PyStr ''Complex'')"
    unfolding classify_def s
    by (simp add: scenario_features_def QueryFeatureExtractor_init_def)
qed

theorem compute_complexity_length_exempt_witness:
  "coerced scenario_features ''length'' = Some 200
   \<and> compute_complexity QueryFeatureExtractor_init scenario_features
       = Inr (2 * 2 + 3 * 1 + 1 * 0 + 1 * 1 + 2 * 0 + 3 * 0 + 200 * 1)"
  using compute_complexity_length_exempt
    [of scenario_features 2 1 0 1 0 0 200]
  by (simp add: coerced_def scenario_features_def)

section \<open>Properties of the join cost\<close>

lemma join_cost_loop_fold:
  assumes "set ord \<subseteq> fst ` set stats" "1 \<le> k" "k \<le> length ord"
  shows "join_cost_loop stats ord [k..<length ord] st =
         Inr (fold (\<lambda>(p, t) (total, inter).
                        (total + (inter + inter * size_spec stats t * sel_spec stats p t),
                         inter * sel_spec stats p t))
                (zip (drop (k - 1) ord) (drop k ord)) st)"
  using assms(2,3)
proof (induction "length ord - k" arbitrary: k st)
  case 0
  then show ?case by (cases st) simp
next
  case (Suc m)
  then have lt: "k < length ord" and lt': "k - 1 < length ord" by auto
  obtain total inter where st: "st = (total, inter)" by (cases st)
  have mem: "ord ! k \<in> fst ` set stats" "ord ! (k - 1) \<in> fst ` set stats"
    using assms(1) lt lt' by (auto simp: subset_iff)
  then obtain cur prev where look: "map_of stats (ord ! k) = Some cur"
      "map_of stats (ord ! (k - 1)) = Some prev"
    by (metis map_of_eq_None_iff not_Some_eq)
  have up: "[k..<length ord] = k # [Suc k..<length ord]"
    using lt by (simp add: upt_conv_Cons)
  have d1: "drop (k - 1) ord = ord ! (k - 1) # drop k ord"
    using Cons_nth_drop_Suc[OF lt'] Suc.prems(1) by simp
  have d2: "drop k ord = ord ! k # drop (Suc k) ord"
    using Cons_nth_drop_Suc[OF lt] by simp
  have ih: "join_cost_loop stats ord [Suc k..<length ord] st' =
         Inr (fold (\<lambda>(p, t) (total, inter).
                        (total + (inter + inter * size_spec stats t * sel_spec stats p t),
                         inter * sel_spec stats p t))
                (zip (drop k ord) (drop (Suc k) ord)) st')" for st'
    using Suc.hyps(1)[of "Suc k" st'] Suc.hyps(2) lt by simp
  show ?case
    unfolding up st
    apply (subst d1)
    apply (subst (2) d2)
    apply (simp add: look[simplified] ih sel_spec_def size_spec_def Let_def)
    done
qed

lemma permutations_3:
  "permutations [a, b, c] = [[a, b, c], [a, c, b], [b, a, c], [b, c, a], [c, a, b], [c, b, a]]"
  by (simp add: permutations.simps upt_conv_Cons)

lemma scenario_costs:
  "map (\<lambda>ord. calculate_join_cost ord scenario_stats) (permutations [''A'', ''B'', ''C''])
     = [Inr 322, Inr 106, Inr 1020, Inr 580, Inr 46, Inr (991 / 2)]"
  by (simp add: permutations_3 calculate_join_cost_def scenario_stats_def upt_conv_Cons)

lemma calculate_join_cost_known:
  assumes sub: "set ord \<subseteq> fst ` set stats"
  shows "calculate_join_cost ord stats = Inr (cost_spec ord stats)"
proof (cases "length ord < 2")
  case True
  then show ?thesis by (simp add: calculate_join_cost_def cost_spec_def)
next
  case False
  then have ne: "ord \<noteq> []" and len: "1 \<le> length ord" by auto
  have "ord ! 0 \<in> fst ` set stats" using sub ne by (auto simp: subset_iff)
  then obtain first where f: "map_of stats (ord ! 0) = Some first"
    by (metis map_of_eq_None_iff not_Some_eq)
  have hd: "hd ord = ord ! 0" using ne by (simp add: hd_conv_nth)
  show ?thesis
    using False join_cost_loop_fold[OF sub _ len]
    by (simp add: calculate_join_cost_def cost_spec_def f hd size_spec_def drop_Suc)
qed

text \<open>
  Claim C5. \<open>calculate_join_cost\<close> returns 0 for an order of fewer than two tables; for
  an order of known tables it returns the value of the fold of the specification
  (\<open>cost_spec\<close>: the intermediate size starts at the first table's size; each
  neighbouring pair (p, t) adds \<open>inter + inter * size t * sel p t\<close> to the total and
  multiplies the intermediate size by \<open>sel p t\<close>, which is 0.1 when absent). The result
  is a function of the order and the statistics alone.
\<close>

theorem calculate_join_cost_is_fold:
  "(length ord < 2 \<longrightarrow> calculate_join_cost ord stats = Inr 0) \<and>
   (set ord \<subseteq> fst ` set stats \<longrightarrow> calculate_join_cost ord stats = Inr (cost_spec ord stats))"
  by (simp add: calculate_join_cost_known) (simp add: calculate_join_cost_def)

theorem calculate_join_cost_is_fold_witness:
  "length [''A''] < 2 \<and> calculate_join_cost [''A''] scenario_stats = Inr 0 \<and>
   set [''A'', ''B'', ''C''] \<subseteq> fst ` set scenario_stats \<and>
   calculate_join_cost [''A'', ''B'', ''C''] scenario_stats = Inr 322 \<and>
   cost_spec [''A'', ''B'', ''C''] scenario_stats = 322"
  using calculate_join_cost_is_fold [of "[''A'']" scenario_stats]
    calculate_join_cost_is_fold [of "[''A'', ''B'', ''C'']" scenario_stats]
  by (simp add: scenario_stats_def cost_spec_def size_spec_def sel_spec_def)

text \<open>
  Claim C8, as stated, fails: with the statistics \<open>tie_stats\<close> the selectivity from A to B
  is 1/2 and the one from B to A is 1/4, yet the two distinct orders A, B, C and A, C, B
  both cost 9.
\<close>

theorem join_cost_equal_counterexample:
  "[''A'', ''B'', ''C''] \<noteq> [''A'', ''C'', ''B''] \<and>
   sel_spec tie_stats ''A'' ''B'' = 1 / 2 \<and> sel_spec tie_stats ''B'' ''A'' = 1 / 4 \<and>
   calculate_join_cost [''A'', ''B'', ''C''] tie_stats = Inr 9 \<and>
   calculate_join_cost [''A'', ''C'', ''B''] tie_stats = Inr 9"
  by (simp add: calculate_join_cost_def tie_stats_def upt_conv_Cons sel_spec_def)

text \<open>
  Claim C8, amended. The join cost is order-sensitive: on the statistics of the
  specification's scenario the six orders of the three tables have the costs 322, 106,
  1020, 580, 46 and 495.5, no two of them equal.
\<close>

theorem join_cost_order_sensitive:
  "map (\<lambda>ord. calculate_join_cost ord scenario_stats) (permutations [''A'', ''B'', ''C''])
     = [Inr 322, Inr 106, Inr 1020, Inr 580, Inr 46, Inr (991 / 2)] \<and>
   distinct (map (\<lambda>ord. calculate_join_cost ord scenario_stats)
               (permutations [''A'', ''B'', ''C'']))"
  unfolding scenario_costs by simp

section \<open>Properties of the Hamiltonian\<close>

lemma build_hamiltonian_3:
  "build_hamiltonian [5, 6, 7] =
     Inr [(''II'', 5), (''IZ'', 6), (''ZI'', 7), (''II'', 1000000)]"
  by code_simp

lemma ceillog2_3: "ceillog2 3 = 2"
  by code_simp

lemma ceiling_log2_3: "nat \<lceil>log 2 3\<rceil> = 2"
  using ceillog2_3 by (simp add: ceillog2_def)

text \<open>
  Claim C2, as stated, fails for a single cost: the claim gives one bit (the minimum of
  1), hence two states, but \<open>build_hamiltonian\<close> uses \<open>\<lceil>log 2 1\<rceil> = 0\<close> qubits and
  builds one state.
\<close>

theorem build_hamiltonian_single_counterexample:
  "build_hamiltonian [5] = Inr [(''I'', 5)] \<and>
   length [(''I'', 5 :: real)]
     \<noteq> 2 ^ max 1 (nat \<lceil>log 2 (real (max (length [5 :: real]) 1))\<rceil>)"
  by (simp add: build_hamiltonian_def format_bin_def bin_digits.simps)

text \<open>
  Claim C2, amended. For every non-empty list of \<open>n\<close> costs, \<open>build_hamiltonian\<close> uses
  \<open>b = \<lceil>log 2 n\<rceil>\<close> bits, with no minimum of 1 (\<open>b = 0\<close> for \<open>n = 1\<close>), and builds
  \<open>2 ^ b \<ge> n\<close> items: item \<open>i < n\<close> has the coefficient \<open>costs ! i\<close>, every item
  \<open>i \<ge> n\<close> has the coefficient 1000000; when every cost is below 1000000, every padding
  coefficient is greater than every real one.
\<close>

theorem build_hamiltonian_table:
  assumes "costs \<noteq> []"
  shows "\<exists>h. build_hamiltonian costs = Inr h \<and>
             length h = 2 ^ nat \<lceil>log 2 (real (length costs))\<rceil> \<and>
             length costs \<le> length h \<and>
             (\<forall>i<length costs. snd (h ! i) = costs ! i) \<and>
             (\<forall>i. length costs \<le> i \<and> i < length h \<longrightarrow> snd (h ! i) = 1000000) \<and>
             ((\<forall>c\<in>set costs. c < 1000000) \<longrightarrow>
                (\<forall>i j. i < length costs \<and> length costs \<le> j \<and> j < length h
                   \<longrightarrow> snd (h ! i) < snd (h ! j)))"
proof -
  let ?n = "length costs"
  let ?b = "ceillog2 ?n"
  let ?h = "map (\<lambda>i. if i < length costs
                       then (map (\<lambda>bit. if bit = CHR ''0'' then CHR ''I'' else CHR ''Z'')
                               (format_bin ?b i),
                             costs ! i)
                       else (replicate ?b CHR ''I'', 1000000))
                [0..<2 ^ ?b]"
  from assms have pos: "?n \<noteq> 0" by simp
  have res: "build_hamiltonian costs = Inr ?h"
    using pos by (simp add: build_hamiltonian_def Let_def)
  have b: "?b = nat \<lceil>log 2 (real ?n)\<rceil>"
    using pos by (simp add: ceillog2_def)
  have le: "?n \<le> 2 ^ ?b" by (rule le_two_power_ceillog2)
  have len: "length ?h = 2 ^ nat \<lceil>log 2 (real ?n)\<rceil>"
    using b by simp
  have le': "?n \<le> length ?h" using le by simp
  have real: "\<forall>i<?n. snd (?h ! i) = costs ! i"
    using le by auto
  have pad: "\<forall>i. ?n \<le> i \<and> i < length ?h \<longrightarrow> snd (?h ! i) = 1000000"
    by auto
  have gt: "(\<forall>c\<in>set costs. c < 1000000) \<longrightarrow>
                (\<forall>i j. i < ?n \<and> ?n \<le> j \<and> j < length ?h
                   \<longrightarrow> snd (?h ! i) < snd (?h ! j))"
    using le by auto
  show ?thesis
    using res len le' real pad gt by blast
qed

theorem build_hamiltonian_table_witness:
  "[5, 6, 7 :: real] \<noteq> [] \<and>
   build_hamiltonian [5, 6, 7] = Inr [(''II'', 5), (''IZ'', 6), (''ZI'', 7), (''II'', 1000000)]
   \<and> nat \<lceil>log 2 (real (length [5, 6, 7 :: real]))\<rceil> = 2"
  using build_hamiltonian_table [of "[5, 6, 7]"] build_hamiltonian_3 ceiling_log2_3 by simp

section \<open>Properties of the reduction\<close>

lemma index_all_ok:
  "\<forall>i\<in>set indices. i < length xs \<Longrightarrow> index_all xs indices = Inr (map ((!) xs) indices)"
  by (induction indices) simp_all

lemma is_argsort_set:
  assumes "is_argsort argsort costs"
  shows "set (argsort costs) = {..<length costs}"
proof -
  have sub: "set (argsort costs) \<subseteq> {..<length costs}"
    using assms by (auto simp: is_argsort_def list_all_iff)
  have "card (set (argsort costs)) = length costs"
    using assms by (simp add: is_argsort_def distinct_card)
  then have "card (set (argsort costs)) = card {..<length costs}" by simp
  with sub show ?thesis by (simp add: card_subset_eq)
qed

lemma reduce_candidates_large:
  assumes "is_argsort argsort costs" "length order_mapping = length costs" "length costs > 4"
  shows "reduce_candidates argsort costs order_mapping =
           Inr (map ((!) costs) (take 4 (argsort costs)),
                map ((!) order_mapping) (take 4 (argsort costs)))"
proof -
  have "\<forall>i\<in>set (take 4 (argsort costs)). i < length costs"
    using is_argsort_set[OF assms(1)] set_take_subset[of 4 "argsort costs"] by auto
  then show ?thesis
    using assms(2,3) by (simp add: reduce_candidates_def index_all_ok Let_def)
qed

lemma argsort_kept_le_discarded:
  assumes "is_argsort argsort costs"
    and "i \<in> set (take k (argsort costs))" and "j < length costs"
    and "j \<notin> set (take k (argsort costs))"
  shows "costs ! i \<le> costs ! j"
proof -
  let ?idx = "argsort costs"
  have srt: "sorted (map ((!) costs) ?idx)" using assms(1) by (simp add: is_argsort_def)
  obtain a where a: "a < length (take k ?idx)" "take k ?idx ! a = i"
    using assms(2) by (auto simp: in_set_conv_nth)
  then have ak: "a < k" "a < length ?idx" "?idx ! a = i" by auto
  have "j \<in> set ?idx" using is_argsort_set[OF assms(1)] assms(3) by simp
  then obtain b where b: "b < length ?idx" "?idx ! b = j"
    by (auto simp: in_set_conv_nth)
  have "\<not> b < k"
  proof
    assume "b < k"
    then have "take k ?idx ! b = j" "b < length (take k ?idx)" using b by auto
    then have "j \<in> set (take k ?idx)" by (metis nth_mem)
    with assms(4) show False by simp
  qed
  then have "a \<le> b" using ak by simp
  then have "map ((!) costs) ?idx ! a \<le> map ((!) costs) ?idx ! b"
    using srt b(1) by (simp add: sorted_iff_nth_mono del: nth_map)
  then show ?thesis using ak b by simp
qed

lemma is_argsort_stable: "is_argsort argsort_stable costs"
  by (simp add: is_argsort_def argsort_stable_def list_all_iff sorted_sort_key)

lemma permutations_subset:
  "ord \<in> set (permutations xs) \<Longrightarrow> set ord \<subseteq> set xs"
proof (induction xs arbitrary: ord rule: permutations.induct)
  case (1 xs)
  show ?case
  proof (cases "xs = []")
    case True
    with "1.prems" show ?thesis by (simp add: permutations.simps)
  next
    case False
    with "1.prems" obtain i rest where i: "i < length xs"
      and rest: "rest \<in> set (permutations (take i xs @ drop (Suc i) xs))"
      and ord: "ord = xs ! i # rest"
      by (subst (asm) permutations.simps) auto
    have "set rest \<subseteq> set (take i xs @ drop (Suc i) xs)"
      using "1.IH"[OF False _ rest] i by simp
    also have "\<dots> \<subseteq> set xs"
      using set_take_subset[of i xs] set_drop_subset[of "Suc i" xs] by auto
    finally show ?thesis using ord i by simp
  qed
qed

lemma permutations_nonempty: "permutations xs \<noteq> []"
proof (induction xs rule: permutations.induct)
  case (1 xs)
  show ?case
  proof (cases "xs = []")
    case True
    then show ?thesis by (simp add: permutations.simps)
  next
    case False
    then have pos: "0 < length xs" by simp
    then have "permutations (take 0 xs @ drop (Suc 0) xs) \<noteq> []"
      using "1.IH"[OF False, of 0] by simp
    then show ?thesis
      using False pos by (subst permutations.simps) force
  qed
qed

text \<open>
  Claim C6, amended. Let \<open>np.argsort\<close> return a permutation of the indices along which
  the costs are sorted. A candidate set of at most 4 entries is handed on unchanged. Of a
  larger set exactly 4 entries are kept, and the cost of every kept entry is at most the
  cost of every discarded entry. Which of several entries of equal cost are kept is left
  to the sort: nothing is said about ties.
\<close>

theorem reduce_candidates_keeps_cheapest:
  assumes "is_argsort argsort costs" and "length order_mapping = length costs"
  shows "(length costs \<le> 4 \<longrightarrow>
            reduce_candidates argsort costs order_mapping = Inr (costs, order_mapping)) \<and>
         (length costs > 4 \<longrightarrow>
            (\<exists>kept. reduce_candidates argsort costs order_mapping =
                       Inr (map ((!) costs) kept, map ((!) order_mapping) kept) \<and>
                    length kept = 4 \<and> distinct kept \<and> set kept \<subseteq> {..<length costs} \<and>
                    (\<forall>i\<in>set kept. \<forall>j<length costs. j \<notin> set kept \<longrightarrow> costs ! i \<le> costs ! j)))"
proof (intro conjI impI)
  assume "length costs \<le> 4"
  then show "reduce_candidates argsort costs order_mapping = Inr (costs, order_mapping)"
    by (simp add: reduce_candidates_def)
next
  assume big: "length costs > 4"
  let ?kept = "take 4 (argsort costs)"
  have len: "length ?kept = 4"
    using assms(1) big by (simp add: is_argsort_def)
  have dist: "distinct ?kept"
    using assms(1) by (simp add: is_argsort_def)
  have sub: "set ?kept \<subseteq> {..<length costs}"
    using is_argsort_set[OF assms(1)] set_take_subset[of 4 "argsort costs"] by auto
  have le: "\<forall>i\<in>set ?kept. \<forall>j<length costs. j \<notin> set ?kept \<longrightarrow> costs ! i \<le> costs ! j"
    using argsort_kept_le_discarded[OF assms(1)] by blast
  show "\<exists>kept. reduce_candidates argsort costs order_mapping =
                       Inr (map ((!) costs) kept, map ((!) order_mapping) kept) \<and>
                    length kept = 4 \<and> distinct kept \<and> set kept \<subseteq> {..<length costs} \<and>
                    (\<forall>i\<in>set kept. \<forall>j<length costs. j \<notin> set kept \<longrightarrow> costs ! i \<le> costs ! j)"
    using reduce_candidates_large[OF assms big] len dist sub le by blast
qed

lemma scenario_scores:
  "score_orders scenario_stats (permutations (map fst scenario_stats)) = Inr scenario_candidates"
  by code_simp

lemma scenario_reduce:
  "reduce_candidates argsort_stable (map cost scenario_candidates) scenario_candidates =
     Inr ([46, 106, 322, 991 / 2],
          [\<lparr> order = [''C'', ''A'', ''B''], cost = 46 \<rparr>,
           \<lparr> order = [''A'', ''C'', ''B''], cost = 106 \<rparr>,
           \<lparr> order = [''A'', ''B'', ''C''], cost = 322 \<rparr>,
           \<lparr> order = [''C'', ''B'', ''A''], cost = 991 / 2 \<rparr>])"
  by code_simp

theorem reduce_candidates_keeps_cheapest_witness:
  "is_argsort argsort_stable (map cost scenario_candidates) \<and>
   length scenario_candidates = length (map cost scenario_candidates) \<and>
   4 < length (map cost scenario_candidates) \<and>
   reduce_candidates argsort_stable (map cost scenario_candidates) scenario_candidates =
     Inr ([46, 106, 322, 991 / 2],
          [\<lparr> order = [''C'', ''A'', ''B''], cost = 46 \<rparr>,
           \<lparr> order = [''A'', ''C'', ''B''], cost = 106 \<rparr>,
           \<lparr> order = [''A'', ''B'', ''C''], cost = 322 \<rparr>,
           \<lparr> order = [''C'', ''B'', ''A''], cost = 991 / 2 \<rparr>])"
  using reduce_candidates_keeps_cheapest
    [of argsort_stable "map cost scenario_candidates" scenario_candidates]
    is_argsort_stable [of "map cost scenario_candidates"] scenario_reduce
  by (simp add: scenario_candidates_def)

lemma tie_break_scores:
  "score_orders tie_break_stats (permutations (map fst tie_break_stats)) =
     Inr tie_break_candidates"
  by code_simp

lemma tie_break_argsort:
  "np_argsort_avx512 argsort_stable (map cost tie_break_candidates) = [3, 2, 5, 1, 0, 4]"
  by code_simp

lemma tie_break_is_argsort:
  "is_argsort (np_argsort_avx512 argsort_stable) (map cost tie_break_candidates)"
  by code_simp

lemma tie_break_reduce:
  "reduce_candidates (np_argsort_avx512 argsort_stable) (map cost tie_break_candidates)
     tie_break_candidates =
     Inr ([0, 0, 9 / 4, 3],
          [tie_break_candidates ! 3, tie_break_candidates ! 2,
           tie_break_candidates ! 5, tie_break_candidates ! 1])"
  by code_simp

text \<open>
  Claim C6, as stated, fails in its clause on ties. \<open>np.argsort\<close> is called with its
  default kind, which is not a stable sort. On the statistics \<open>tie_break_stats\<close> the six
  candidates cost 3, 3, 0, 0, 3 and 2.25; numpy's sort returns the indices
  3, 2, 5, 1, 0, 4, along which the costs are sorted, so the candidates of the indices
  3, 2, 5 and 1 are kept. The candidate of index 1 (cost 3) is kept while the candidate
  of index 0, of the same cost 3 and earlier in the enumeration, is discarded.
\<close>

theorem reduce_candidates_ties_counterexample:
  "score_orders tie_break_stats (permutations (map fst tie_break_stats)) =
     Inr tie_break_candidates \<and>
   map cost tie_break_candidates = [3, 3, 0, 0, 3, 9 / 4] \<and>
   np_argsort_avx512 argsort_stable (map cost tie_break_candidates) = [3, 2, 5, 1, 0, 4] \<and>
   is_argsort (np_argsort_avx512 argsort_stable) (map cost tie_break_candidates) \<and>
   reduce_candidates (np_argsort_avx512 argsort_stable) (map cost tie_break_candidates)
     tie_break_candidates =
     Inr ([0, 0, 9 / 4, 3],
          [tie_break_candidates ! 3, tie_break_candidates ! 2,
           tie_break_candidates ! 5, tie_break_candidates ! 1]) \<and>
   cost (tie_break_candidates ! 1) = cost (tie_break_candidates ! 0)"
  using tie_break_scores tie_break_argsort tie_break_is_argsort tie_break_reduce
  by (simp add: tie_break_candidates_def)

lemma score_orders_known:
  assumes "\<forall>ord\<in>set join_orders. set ord \<subseteq> fst ` set stats"
  shows "score_orders stats join_orders =
           Inr (map (\<lambda>ord. \<lparr> order = ord, cost = cost_spec ord stats \<rparr>) join_orders)"
  using assms by (induction join_orders) (simp_all add: calculate_join_cost_known)

lemma build_hamiltonian_nonempty:
  "costs \<noteq> [] \<Longrightarrow> \<exists>h. build_hamiltonian costs = Inr h"
  by (simp add: build_hamiltonian_def Let_def)

lemma sorted_map_nth_mono:
  assumes "sorted (map f xs)" "i \<le> j" "j < length xs"
  shows "f (xs ! i) \<le> f (xs ! j)"
  using sorted_nth_mono[OF assms(1) assms(2)] assms(2,3) by simp

lemma reduce_candidates_order:
  assumes "is_argsort argsort (map cost om)" "4 < length om"
  shows "\<exists>rm. reduce_candidates argsort (map cost om) om = Inr (map cost rm, rm) \<and>
              length rm = 4 \<and> set rm \<subseteq> set om \<and> sorted (map cost rm) \<and>
              (\<forall>e\<in>set om. cost (rm ! 0) \<le> cost e)"
proof -
  let ?idx = "argsort (map cost om)"
  let ?top = "take 4 ?idx"
  let ?rm = "map ((!) om) ?top"
  have srt: "sorted (map ((!) (map cost om)) ?idx)"
    using assms(1) by (simp add: is_argsort_def)
  have len: "length ?idx = length om" using assms(1) by (simp add: is_argsort_def)
  have idx_set: "set ?idx = {..<length om}" using is_argsort_set[OF assms(1)] by simp
  have top_in: "\<forall>i\<in>set ?top. i < length om"
    using idx_set set_take_subset[of 4 ?idx] by auto
  have rc: "map ((!) (map cost om)) ?top = map cost ?rm"
    using top_in by simp
  have "reduce_candidates argsort (map cost om) om = Inr (map ((!) (map cost om)) ?top, ?rm)"
    by (rule reduce_candidates_large[OF assms(1)]) (use assms(2) in simp_all)
  then have red: "reduce_candidates argsort (map cost om) om = Inr (map cost ?rm, ?rm)"
    by (simp only: rc)
  have rm_len: "length ?rm = 4" using len assms(2) by simp
  have rm_sub: "set ?rm \<subseteq> set om" using top_in by auto
  have "sorted (take 4 (map ((!) (map cost om)) ?idx))" using srt by (rule sorted_wrt_take)
  then have "sorted (map ((!) (map cost om)) ?top)" by (simp only: take_map)
  then have rm_sorted: "sorted (map cost ?rm)" by (simp only: rc)
  have least: "\<forall>e\<in>set om. cost (?rm ! 0) \<le> cost e"
  proof
    fix e assume "e \<in> set om"
    then obtain j where j: "j < length om" "om ! j = e" by (auto simp: in_set_conv_nth)
    then have "j \<in> set ?idx" using idx_set by simp
    then obtain b where b: "b < length ?idx" "?idx ! b = j" by (auto simp: in_set_conv_nth)
    have le: "(map cost om) ! (?idx ! 0) \<le> (map cost om) ! (?idx ! b)"
      by (rule sorted_map_nth_mono[OF srt _ b(1)]) simp
    have "?idx ! 0 \<in> set ?idx" by (rule nth_mem) (use len assms(2) in auto)
    then have i0: "?idx ! 0 < length om" using idx_set by simp
    have rm0: "?rm ! 0 = om ! (?idx ! 0)" using len assms(2) by simp
    have "cost (om ! (?idx ! 0)) \<le> cost (om ! j)"
      using le i0 j(1) b(2) by simp
    then show "cost (?rm ! 0) \<le> cost e" by (simp only: rm0 j(2))
  qed
  show ?thesis using red rm_len rm_sub rm_sorted least by blast
qed

lemma scenario_problem:
  "create_quantum_optimization_problem argsort_stable scenario_stats =
     Inr ([(''II'', 46), (''IZ'', 106), (''ZI'', 322), (''ZZ'', 991 / 2)],
          [\<lparr> order = [''C'', ''A'', ''B''], cost = 46 \<rparr>,
           \<lparr> order = [''A'', ''C'', ''B''], cost = 106 \<rparr>,
           \<lparr> order = [''A'', ''B'', ''C''], cost = 322 \<rparr>,
           \<lparr> order = [''C'', ''B'', ''A''], cost = 991 / 2 \<rparr>],
          [46, 106, 322, 991 / 2])"
  by code_simp

lemma scenario_permutations_length: "length (permutations (map fst scenario_stats)) = 6"
  by code_simp

text \<open>
  Claim C10. Let \<open>np.argsort\<close> return, for every list of costs, a permutation of the
  indices along which the costs are sorted. Whenever more than 4 join orders are
  enumerated, \<open>create_quantum_optimization_problem\<close> returns a reduced mapping of 4
  entries, each an enumerated join order with its cost, in non-decreasing order of cost;
  the entry at index 0 costs no more than any enumerated join order.
\<close>

theorem reduced_mapping_sorted:
  assumes "\<forall>costs. is_argsort argsort costs"
    and "4 < length (permutations (map fst stats))"
  shows "\<exists>hamiltonian reduced_mapping reduced_costs.
           create_quantum_optimization_problem argsort stats =
             Inr (hamiltonian, reduced_mapping, reduced_costs) \<and>
           length reduced_mapping = 4 \<and>
           reduced_costs = map cost reduced_mapping \<and>
           (\<forall>e\<in>set reduced_mapping. order e \<in> set (permutations (map fst stats)) \<and>
                                     calculate_join_cost (order e) stats = Inr (cost e)) \<and>
           (\<forall>i j. i < j \<and> j < 4 \<longrightarrow> cost (reduced_mapping ! i) \<le> cost (reduced_mapping ! j)) \<and>
           (\<forall>ord\<in>set (permutations (map fst stats)).
              \<exists>c. calculate_join_cost ord stats = Inr c \<and> cost (reduced_mapping ! 0) \<le> c)"
proof -
  let ?orders = "permutations (map fst stats)"
  define om where "om = map (\<lambda>ord. \<lparr> order = ord, cost = cost_spec ord stats \<rparr>) ?orders"
  have known: "\<forall>ord\<in>set ?orders. set ord \<subseteq> fst ` set stats"
    using permutations_subset[of _ "map fst stats"] by auto
  have score: "score_orders stats ?orders = Inr om"
    unfolding om_def by (rule score_orders_known[OF known])
  have arg: "is_argsort argsort (map cost om)" using assms(1) by simp
  have big: "4 < length om" using assms(2) by (simp add: om_def)
  obtain rm where red: "reduce_candidates argsort (map cost om) om = Inr (map cost rm, rm)"
    and rm_len: "length rm = 4" and rm_sub: "set rm \<subseteq> set om"
    and rm_sorted: "sorted (map cost rm)"
    and least: "\<forall>e\<in>set om. cost (rm ! 0) \<le> cost e"
    using reduce_candidates_order[OF arg big] by blast
  have "map cost rm \<noteq> []" using rm_len by auto
  then obtain h where h: "build_hamiltonian (map cost rm) = Inr h"
    using build_hamiltonian_nonempty by blast
  have create: "create_quantum_optimization_problem argsort stats = Inr (h, rm, map cost rm)"
    unfolding create_quantum_optimization_problem_def Let_def
    by (simp only: score sum.case red prod.case h)
  have om_entry: "order e \<in> set ?orders \<and> calculate_join_cost (order e) stats = Inr (cost e)"
    if "e \<in> set om" for e
  proof -
    from that obtain ord where ord: "ord \<in> set ?orders"
      "e = \<lparr> order = ord, cost = cost_spec ord stats \<rparr>"
      by (auto simp: om_def)
    have "set ord \<subseteq> fst ` set stats" using known ord(1) by (rule bspec)
    then have "calculate_join_cost ord stats = Inr (cost_spec ord stats)"
      by (rule calculate_join_cost_known)
    then show ?thesis using ord by simp
  qed
  have entries: "\<forall>e\<in>set rm. order e \<in> set ?orders \<and>
                   calculate_join_cost (order e) stats = Inr (cost e)"
    using om_entry rm_sub by blast
  have mono: "\<forall>i j. i < j \<and> j < 4 \<longrightarrow> cost (rm ! i) \<le> cost (rm ! j)"
  proof (intro allI impI)
    fix i j :: nat assume ij: "i < j \<and> j < 4"
    show "cost (rm ! i) \<le> cost (rm ! j)"
      by (rule sorted_map_nth_mono[OF rm_sorted]) (use ij rm_len in simp_all)
  qed
  have lst: "\<forall>ord\<in>set ?orders.
                 \<exists>c. calculate_join_cost ord stats = Inr c \<and> cost (rm ! 0) \<le> c"
  proof
    fix ord assume o: "ord \<in> set ?orders"
    have "set ord \<subseteq> fst ` set stats" using known o by (rule bspec)
    then have c: "calculate_join_cost ord stats = Inr (cost_spec ord stats)"
      by (rule calculate_join_cost_known)
    have "\<lparr> order = ord, cost = cost_spec ord stats \<rparr> \<in> set om"
      using o by (simp add: om_def)
    with least have "cost (rm ! 0) \<le> cost \<lparr> order = ord, cost = cost_spec ord stats \<rparr>"
      by (rule bspec)
    then have "cost (rm ! 0) \<le> cost_spec ord stats" by simp
    with c show "\<exists>c. calculate_join_cost ord stats = Inr c \<and> cost (rm ! 0) \<le> c" by simp
  qed
  show ?thesis
    apply (rule exI[of _ h])
    apply (rule exI[of _ rm])
    apply (rule exI[of _ "map cost rm"])
    apply (intro conjI)
         apply (rule create)
        apply (rule rm_len)
       apply (rule refl)
      apply (rule entries)
     apply (rule mono)
    apply (rule lst)
    done
qed

theorem reduced_mapping_sorted_witness:
  "(\<forall>costs. is_argsort argsort_stable costs) \<and>
   4 < length (permutations (map fst scenario_stats)) \<and>
   create_quantum_optimization_problem argsort_stable scenario_stats =
     Inr ([(''II'', 46), (''IZ'', 106), (''ZI'', 322), (''ZZ'', 991 / 2)],
          [\<lparr> order = [''C'', ''A'', ''B''], cost = 46 \<rparr>,
           \<lparr> order = [''A'', ''C'', ''B''], cost = 106 \<rparr>,
           \<lparr> order = [''A'', ''B'', ''C''], cost = 322 \<rparr>,
           \<lparr> order = [''C'', ''B'', ''A''], cost = 991 / 2 \<rparr>],
          [46, 106, 322, 991 / 2])"
  using reduced_mapping_sorted [of argsort_stable scenario_stats]
    is_argsort_stable scenario_problem scenario_permutations_length
  by simp

section \<open>Properties of the solver step and the selection\<close>

lemma argmin_loop_spec:
  assumes "bi < length pre" "pre ! bi = b" "\<forall>j<length pre. b \<le> pre ! j" "\<forall>j<bi. b < pre ! j"
  shows "argmin_loop xs (length pre) bi b < length (pre @ xs) \<and>
         (\<forall>j<length (pre @ xs). (pre @ xs) ! argmin_loop xs (length pre) bi b \<le> (pre @ xs) ! j) \<and>
         (\<forall>j<argmin_loop xs (length pre) bi b.
             (pre @ xs) ! argmin_loop xs (length pre) bi b < (pre @ xs) ! j)"
  using assms
proof (induction xs arbitrary: pre bi b)
  case Nil
  then show ?case by simp
next
  case (Cons x xs)
  let ?pre = "pre @ [x]"
  show ?case
  proof (cases "x < b")
    case True
    have a1: "length pre < length ?pre" by simp
    have a2: "?pre ! length pre = x" by simp
    have a3: "\<forall>j<length ?pre. x \<le> ?pre ! j"
      using Cons.prems(3) True by (auto simp: nth_append less_Suc_eq)
    have a4: "\<forall>j<length pre. x < ?pre ! j"
      using Cons.prems(3) True by (auto simp: nth_append)
    from Cons.IH[OF a1 a2 a3 a4] True show ?thesis by simp
  next
    case False
    have a1: "bi < length ?pre" using Cons.prems(1) by simp
    have a2: "?pre ! bi = b" using Cons.prems(1,2) by (simp add: nth_append)
    have a3: "\<forall>j<length ?pre. b \<le> ?pre ! j"
      using Cons.prems(3) False by (auto simp: nth_append less_Suc_eq)
    have a4: "\<forall>j<bi. b < ?pre ! j"
      using Cons.prems(1,4) by (auto simp: nth_append)
    from Cons.IH[OF a1 a2 a3 a4] False show ?thesis by simp
  qed
qed

lemma np_argmin_spec:
  assumes "costs \<noteq> []"
  shows "\<exists>k. np_argmin costs = Inr k \<and> k < length costs \<and>
             (\<forall>j<length costs. costs ! k \<le> costs ! j) \<and> (\<forall>j<k. costs ! k < costs ! j)"
proof -
  from assms obtain x rest where c: "costs = x # rest" by (cases costs) auto
  have "argmin_loop rest (length [x]) 0 x < length ([x] @ rest) \<and>
         (\<forall>j<length ([x] @ rest). ([x] @ rest) ! argmin_loop rest (length [x]) 0 x \<le> ([x] @ rest) ! j) \<and>
         (\<forall>j<argmin_loop rest (length [x]) 0 x.
             ([x] @ rest) ! argmin_loop rest (length [x]) 0 x < ([x] @ rest) ! j)"
    by (rule argmin_loop_spec) simp_all
  then show ?thesis by (simp add: c np_argmin_def)
qed

lemma run_fails:
  "solver_fails self run \<Longrightarrow>
   run_quantum_optimization self run reduced_costs = classical_selection reduced_costs"
  by (auto simp: solver_fails_def run_quantum_optimization_def split: if_splits)

lemma select_no_sampler:
  "select no_sampler_optimizer failing_run scenario_hamiltonian scenario_reduced
     (map cost scenario_reduced) =
   Inr \<lparr> join_order = [''C'', ''A'', ''B''], predicted_cost = 46, confidence = 1,
         all_orders = scenario_reduced, probabilities = [(0, 1)],
         quantum_hardware_used = False, backend_name = ''simulator'' \<rparr>"
  by code_simp

lemma select_hardware_raises:
  "select hardware_optimizer failing_run scenario_hamiltonian scenario_reduced
     (map cost scenario_reduced) =
   Inr \<lparr> join_order = [''C'', ''A'', ''B''], predicted_cost = 46, confidence = 1,
         all_orders = scenario_reduced, probabilities = [(0, 1)],
         quantum_hardware_used = True, backend_name = ''ibm_backend'' \<rparr>"
  by code_simp

text \<open>
  Claim C1, as stated, fails. On the reduced problem of the scenario, with no sampler the
  selection returns the minimum-cost order C, A, B, but with confidence 1 and the source
  \<open>simulator\<close>; with a real backend whose run raises it returns the same order with
  confidence 1 and the backend's name as source. Neither result has confidence 0.9 or
  the source \<open>classical_fallback\<close>.
\<close>

theorem select_solver_failure_counterexample:
  "select no_sampler_optimizer failing_run scenario_hamiltonian scenario_reduced
     (map cost scenario_reduced) =
   Inr \<lparr> join_order = [''C'', ''A'', ''B''], predicted_cost = 46, confidence = 1,
         all_orders = scenario_reduced, probabilities = [(0, 1)],
         quantum_hardware_used = False, backend_name = ''simulator'' \<rparr> \<and>
   select hardware_optimizer failing_run scenario_hamiltonian scenario_reduced
     (map cost scenario_reduced) =
   Inr \<lparr> join_order = [''C'', ''A'', ''B''], predicted_cost = 46, confidence = 1,
         all_orders = scenario_reduced, probabilities = [(0, 1)],
         quantum_hardware_used = True, backend_name = ''ibm_backend'' \<rparr> \<and>
   (1 :: real) \<noteq> 0.9 \<and> ''simulator'' \<noteq> ''classical_fallback'' \<and>
   ''ibm_backend'' \<noteq> ''classical_fallback''"
  using select_no_sampler select_hardware_raises by simp

text \<open>
  Claim C1, amended. For every encoded problem and every non-empty candidate set (a
  mapping and a list of costs of the same length), if the solver is unavailable or
  raises, \<open>run_quantum_optimization\<close> itself selects classically and returns the
  distribution that gives weight 1 to the first index of minimum cost; the selection
  step then returns a recommendation whose order is that minimum-cost candidate (ties
  broken by lowest index) and whose confidence is 1, the weight of that distribution.
  Nothing is said here about the source that the recommendation names.
\<close>

theorem select_solver_failure:
  assumes "solver_fails self run" and "costs \<noteq> []" and "length order_mapping = length costs"
  shows "\<exists>k r. np_argmin costs = Inr k \<and> k < length costs \<and>
             (\<forall>j<length costs. costs ! k \<le> costs ! j) \<and> (\<forall>j<k. costs ! k < costs ! j) \<and>
             run_quantum_optimization self run (Some costs) = Inr [(int k, 1)] \<and>
             select self run hamiltonian order_mapping costs = Inr r \<and>
             join_order r = order (order_mapping ! k) \<and>
             predicted_cost r = cost (order_mapping ! k) \<and>
             confidence r = 1 \<and>
             all_orders r = order_mapping \<and>
             probabilities r = [(int k, 1)]"
proof -
  obtain k where k: "np_argmin costs = Inr k" "k < length costs"
    "\<forall>j<length costs. costs ! k \<le> costs ! j" "\<forall>j<k. costs ! k < costs ! j"
    using np_argmin_spec[OF assms(2)] by blast
  have run: "run_quantum_optimization self run (Some costs) = Inr [(int k, 1)]"
    by (simp add: run_fails[OF assms(1)] classical_selection_def k(1))
  have scan: "best_state_loop (length order_mapping) [(int k, 1)] (- 1, - 1) = (1, int k)"
    using k(2) assms(3) by simp
  have get: "mapping_get order_mapping (int k) = Inr (order_mapping ! k)"
    using k(2) assms(3) by (simp add: mapping_get_def)
  let ?r = "\<lparr> join_order = order (order_mapping ! k),
              predicted_cost = cost (order_mapping ! k),
              confidence = 1,
              all_orders = order_mapping,
              probabilities = [(int k, 1)],
              quantum_hardware_used = (use_real_hardware self \<and> backend self \<noteq> None),
              backend_name = (case backend self of
                                Some name \<Rightarrow> name | None \<Rightarrow> ''simulator'') \<rparr>"
  have sel: "select self run hamiltonian order_mapping costs = Inr ?r"
    unfolding select_def run select_recommendation_def scan
    using k(2) assms(3) by (simp add: get)
  have fields: "join_order ?r = order (order_mapping ! k)"
    "predicted_cost ?r = cost (order_mapping ! k)" "confidence ?r = 1"
    "all_orders ?r = order_mapping" "probabilities ?r = [(int k, 1)]"
    by simp_all
  show ?thesis
    using k run sel fields by blast
qed

theorem select_solver_failure_witness:
  "solver_fails no_sampler_optimizer failing_run \<and>
   map cost scenario_reduced \<noteq> [] \<and>
   length scenario_reduced = length (map cost scenario_reduced) \<and>
   np_argmin (map cost scenario_reduced) = Inr 0 \<and>
   select no_sampler_optimizer failing_run scenario_hamiltonian scenario_reduced
     (map cost scenario_reduced) =
   Inr \<lparr> join_order = [''C'', ''A'', ''B''], predicted_cost = 46, confidence = 1,
         all_orders = scenario_reduced, probabilities = [(0, 1)],
         quantum_hardware_used = False, backend_name = ''simulator'' \<rparr>"
  using select_solver_failure
    [of no_sampler_optimizer failing_run "map cost scenario_reduced" scenario_reduced
        scenario_hamiltonian]
    select_no_sampler
  by (simp add: solver_fails_def no_sampler_optimizer_def scenario_reduced_def np_argmin_def)

lemma run_counts:
  "run_quantum_optimization hardware_optimizer counts_run (Some (map cost scenario_reduced))
     = Inr [(0, 1 / 4), (1, 1 / 4), (2, 1 / 4), (3, 1 / 4)]"
  by code_simp

lemma select_counts:
  "select hardware_optimizer counts_run scenario_hamiltonian scenario_reduced
     (map cost scenario_reduced) =
   Inr \<lparr> join_order = [''C'', ''A'', ''B''], predicted_cost = 46, confidence = 1 / 4,
         all_orders = scenario_reduced,
         probabilities = [(0, 1 / 4), (1, 1 / 4), (2, 1 / 4), (3, 1 / 4)],
         quantum_hardware_used = True, backend_name = ''ibm_backend'' \<rparr>"
  by code_simp

text \<open>
  Claim C3. When \<open>run_quantum_optimization\<close> takes the real-hardware branch and the job
  returns a result, the distribution it returns gives \<open>1 / num_states\<close> to every index
  of the reduced costs, whatever the job's result is: replacing the result by any other
  one leaves the distribution and the recommendation of the selection step unchanged.
\<close>

theorem hardware_branch_uniform:
  assumes "sampler self" and "use_real_hardware self" and "backend self \<noteq> None"
    and "hardware_run run = Some result"
  shows "run_quantum_optimization self run (Some costs) =
           Inr (map (\<lambda>i. (int i, 1 / real (length costs))) [0..<length costs]) \<and>
         (\<forall>result'. run_quantum_optimization self (run\<lparr>hardware_run := Some result'\<rparr>) (Some costs)
                     = run_quantum_optimization self run (Some costs)) \<and>
         (\<forall>result'. select self (run\<lparr>hardware_run := Some result'\<rparr>) hamiltonian order_mapping costs
                     = select self run hamiltonian order_mapping costs)"
  using assms
  by (simp add: run_quantum_optimization_def uniform_probabilities_def select_def Let_def)

theorem hardware_branch_uniform_witness:
  "sampler hardware_optimizer \<and> use_real_hardware hardware_optimizer \<and>
   backend hardware_optimizer \<noteq> None \<and> hardware_run counts_run = Some [512, 0, 0, 512] \<and>
   run_quantum_optimization hardware_optimizer counts_run (Some (map cost scenario_reduced))
     = Inr [(0, 1 / 4), (1, 1 / 4), (2, 1 / 4), (3, 1 / 4)] \<and>
   run_quantum_optimization hardware_optimizer
       (counts_run\<lparr>hardware_run := Some [0, 1024, 0, 0]\<rparr>) (Some (map cost scenario_reduced))
     = Inr [(0, 1 / 4), (1, 1 / 4), (2, 1 / 4), (3, 1 / 4)] \<and>
   select hardware_optimizer (counts_run\<lparr>hardware_run := Some [0, 1024, 0, 0]\<rparr>)
       scenario_hamiltonian scenario_reduced (map cost scenario_reduced)
     = select hardware_optimizer counts_run scenario_hamiltonian scenario_reduced
         (map cost scenario_reduced)"
proof -
  have h: "sampler hardware_optimizer" "use_real_hardware hardware_optimizer"
    "backend hardware_optimizer \<noteq> None"
    by (simp_all add: hardware_optimizer_def)
  have r: "hardware_run counts_run = Some [512, 0, 0, 512]"
    by (simp add: counts_run_def)
  note u = hardware_branch_uniform
    [OF h r, of "map cost scenario_reduced" scenario_hamiltonian scenario_reduced]
  have a: "run_quantum_optimization hardware_optimizer
       (counts_run\<lparr>hardware_run := Some [0, 1024, 0, 0]\<rparr>) (Some (map cost scenario_reduced))
     = run_quantum_optimization hardware_optimizer counts_run (Some (map cost scenario_reduced))"
    using u by blast
  have b: "select hardware_optimizer (counts_run\<lparr>hardware_run := Some [0, 1024, 0, 0]\<rparr>)
       scenario_hamiltonian scenario_reduced (map cost scenario_reduced)
     = select hardware_optimizer counts_run scenario_hamiltonian scenario_reduced
         (map cost scenario_reduced)"
    using u by blast
  show ?thesis
    using h r run_counts a b by simp
qed

lemma best_state_loop_bounds:
  assumes "\<forall>(state, prob)\<in>set probs. 0 \<le> prob \<and> prob \<le> 1"
    and "best_order_idx \<noteq> - 1 \<longrightarrow> 0 \<le> best_prob \<and> best_prob \<le> 1"
    and "best_state_loop n probs (best_prob, best_order_idx) = (p, i)"
    and "i \<noteq> - 1"
  shows "0 \<le> p \<and> p \<le> 1"
  using assms
proof (induction probs arbitrary: best_prob best_order_idx)
  case Nil
  then show ?case by simp
next
  case (Cons item probs)
  obtain state prob where item: "item = (state, prob)" by (cases item)
  show ?case
  proof (cases "prob > best_prob \<and> 0 \<le> state \<and> state < int n")
    case True
    with Cons.prems item have "best_state_loop n probs (prob, state) = (p, i)" by simp
    moreover have "state \<noteq> - 1 \<longrightarrow> 0 \<le> prob \<and> prob \<le> 1" using Cons.prems(1) item by simp
    moreover have "\<forall>(state, prob)\<in>set probs. 0 \<le> prob \<and> prob \<le> 1" using Cons.prems(1) by simp
    ultimately show ?thesis using Cons.IH Cons.prems(4) by blast
  next
    case False
    with Cons.prems item have "best_state_loop n probs (best_prob, best_order_idx) = (p, i)"
      by auto
    moreover have "\<forall>(state, prob)\<in>set probs. 0 \<le> prob \<and> prob \<le> 1" using Cons.prems(1) by simp
    ultimately show ?thesis using Cons.IH Cons.prems(2,4) by blast
  qed
qed

lemma select_recommendation_confidence:
  assumes "\<forall>(state, prob)\<in>set probs. 0 \<le> prob \<and> prob \<le> 1"
    and "select_recommendation self order_mapping costs probs = Inr r"
  shows "0 \<le> confidence r \<and> confidence r \<le> 1"
proof -
  obtain p i where scan: "best_state_loop (length order_mapping) probs (- 1, - 1) = (p, i)"
    by (cases "best_state_loop (length order_mapping) probs (- 1, - 1)")
  show ?thesis
  proof (cases "i = - 1")
    case True
    with assms(2) scan have "confidence r = 0.9"
      by (auto simp: select_recommendation_def split: sum.splits)
    then show ?thesis by simp
  next
    case False
    have b: "0 \<le> p \<and> p \<le> 1"
      by (rule best_state_loop_bounds[OF assms(1) _ scan False]) simp
    from assms(2) scan False have "confidence r = p"
      by (auto simp: select_recommendation_def split: sum.splits)
    with b show ?thesis by simp
  qed
qed

lemma select_heavy:
  "select simulator_optimizer heavy_run scenario_hamiltonian scenario_reduced
     (map cost scenario_reduced) =
   Inr \<lparr> join_order = [''C'', ''A'', ''B''], predicted_cost = 46, confidence = 2,
         all_orders = scenario_reduced, probabilities = [(0, 2), (1, 1)],
         quantum_hardware_used = False, backend_name = ''simulator'' \<rparr>"
  by code_simp

lemma select_weighted:
  "select simulator_optimizer weighted_run scenario_hamiltonian scenario_reduced
     (map cost scenario_reduced) =
   Inr \<lparr> join_order = [''A'', ''C'', ''B''], predicted_cost = 106, confidence = 3 / 4,
         all_orders = scenario_reduced, probabilities = [(0, 1 / 4), (1, 3 / 4)],
         quantum_hardware_used = False, backend_name = ''simulator'' \<rparr>"
  by code_simp

text \<open>
  Claim C4, as stated, fails. The weights of a distribution are non-negative and need
  not sum to 1; when the simulator returns the weights 2 and 1 for the states 0 and 1,
  the winning weight 2 becomes the confidence, which is not in [0,1].
\<close>

theorem select_confidence_counterexample:
  "simulator_run heavy_run = Some (Some [(0, 2), (1, 1)]) \<and>
   select simulator_optimizer heavy_run scenario_hamiltonian scenario_reduced
     (map cost scenario_reduced) =
   Inr \<lparr> join_order = [''C'', ''A'', ''B''], predicted_cost = 46, confidence = 2,
         all_orders = scenario_reduced, probabilities = [(0, 2), (1, 1)],
         quantum_hardware_used = False, backend_name = ''simulator'' \<rparr> \<and>
   \<not> (2 :: real) \<le> 1"
  using select_heavy by (simp add: heavy_run_def)

text \<open>
  Claim C4, amended. Every recommendation returned by the selection step has its
  confidence in [0,1], provided every weight of a distribution that the solver returns
  is in [0,1]: the confidence is the winning weight, and it is not clamped. (The
  distributions that \<open>run_quantum_optimization\<close> builds itself have weights 1 and
  \<open>1 / num_states\<close>, and the fallback of the scan has confidence 0.9.)
\<close>

theorem select_confidence_bounds:
  assumes "\<forall>eigenstate. simulator_run run = Some (Some eigenstate) \<longrightarrow>
             (\<forall>(state, prob)\<in>set eigenstate. 0 \<le> prob \<and> prob \<le> 1)"
    and "select self run hamiltonian order_mapping costs = Inr r"
  shows "0 \<le> confidence r \<and> confidence r \<le> 1"
proof -
  from assms(2) obtain probs where
    run: "run_quantum_optimization self run (Some costs) = Inr probs"
    and sel: "select_recommendation self order_mapping costs probs = Inr r"
    by (auto simp: select_def split: sum.splits)
  have uni: "\<forall>(state, prob)\<in>set (uniform_probabilities (Some costs)). 0 \<le> prob \<and> prob \<le> 1"
    by (auto simp: uniform_probabilities_def Let_def divide_le_eq)
  have cls: "\<forall>(state, prob)\<in>set d. 0 \<le> prob \<and> prob \<le> 1"
    if "classical_selection (Some costs) = Inr d" for d
    using that by (auto simp: classical_selection_def split: sum.splits)
  have "\<forall>(state, prob)\<in>set probs. 0 \<le> prob \<and> prob \<le> 1"
    using run uni cls assms(1)
    by (auto simp: run_quantum_optimization_def split: if_splits option.splits)
  then show ?thesis using sel by (rule select_recommendation_confidence)
qed

theorem select_confidence_bounds_witness:
  "simulator_run weighted_run = Some (Some [(0, 1 / 4), (1, 3 / 4)]) \<and>
   (\<exists>r. select simulator_optimizer weighted_run scenario_hamiltonian scenario_reduced
           (map cost scenario_reduced) = Inr r \<and>
        confidence r = 3 / 4 \<and> 0 \<le> confidence r \<and> confidence r \<le> 1)"
  using select_confidence_bounds
    [of weighted_run simulator_optimizer scenario_hamiltonian scenario_reduced
        "map cost scenario_reduced"]
    select_weighted
  by (simp add: weighted_run_def)

section \<open>Properties of the normalization\<close>

subsection \<open>Rounding\<close>

lemma round_half_even_error: "\<bar>of_int (round_half_even y) - y\<bar> \<le> 1 / 2"
proof -
  have "of_int \<lfloor>y\<rfloor> \<le> y" "y < of_int \<lfloor>y\<rfloor> + 1" by linarith+
  then show ?thesis
    by (auto simp: round_half_even_def Let_def)
qed

lemma round_half_even_unique:
  assumes "\<bar>y - of_int n\<bar> < 1 / 2"
  shows "round_half_even y = n"
proof (cases "of_int n \<le> y")
  case True
  with assms have "\<lfloor>y\<rfloor> = n" by (intro floor_unique) auto
  with assms True show ?thesis by (auto simp: round_half_even_def Let_def)
next
  case False
  with assms have "\<lfloor>y\<rfloor> = n - 1" by (intro floor_unique) auto
  with assms False show ?thesis by (auto simp: round_half_even_def Let_def)
qed

lemma floor_log2_eqI:
  assumes "2 powi e \<le> \<bar>x\<bar>" "\<bar>x\<bar> < 2 powi (e + 1)"
  shows "\<lfloor>log 2 \<bar>x\<bar>\<rfloor> = e"
proof -
  have "(0::real) < 2 powi e" by simp
  then have pos: "0 < \<bar>x\<bar>" using assms(1) by linarith
  have "2 powr (of_int e) \<le> \<bar>x\<bar>" "\<bar>x\<bar> < 2 powr (of_int e + 1)"
    using assms powr_real_of_int'[of "2::real" e] powr_real_of_int'[of "2::real" "e + 1"]
    by simp_all
  then show ?thesis using floor_log_eq_powr_iff[of "\<bar>x\<bar>" 2 e] pos by simp
qed

lemma floor_log2_bounds:
  assumes "x \<noteq> 0"
  shows "2 powi \<lfloor>log 2 \<bar>x\<bar>\<rfloor> \<le> \<bar>x\<bar>" "\<bar>x\<bar> < 2 powi (\<lfloor>log 2 \<bar>x\<bar>\<rfloor> + 1)"
proof -
  have pos: "0 < \<bar>x\<bar>" using assms by simp
  have "2 powr (of_int \<lfloor>log 2 \<bar>x\<bar>\<rfloor>) \<le> \<bar>x\<bar> \<and> \<bar>x\<bar> < 2 powr (of_int \<lfloor>log 2 \<bar>x\<bar>\<rfloor> + 1)"
    using floor_log_eq_powr_iff[of "\<bar>x\<bar>" 2 "\<lfloor>log 2 \<bar>x\<bar>\<rfloor>"] pos by simp
  then show "2 powi \<lfloor>log 2 \<bar>x\<bar>\<rfloor> \<le> \<bar>x\<bar>" "\<bar>x\<bar> < 2 powi (\<lfloor>log 2 \<bar>x\<bar>\<rfloor> + 1)"
    using powr_real_of_int'[of "2::real" "\<lfloor>log 2 \<bar>x\<bar>\<rfloor>"]
      powr_real_of_int'[of "2::real" "\<lfloor>log 2 \<bar>x\<bar>\<rfloor> + 1"]
    by simp_all
qed

lemma f64_round_eqI:
  assumes "2 powi e \<le> \<bar>x\<bar>" "\<bar>x\<bar> < 2 powi (e + 1)" "- 1022 \<le> e" "e \<le> 1022"
    and "\<bar>x / 2 powi (e - 52) - of_int n\<bar> < 1 / 2"
  shows "f64_round x = Fin (of_int n * 2 powi (e - 52))"
proof -
  have "(0::real) < 2 powi e" by simp
  then have "0 < \<bar>x\<bar>" using assms(1) by linarith
  then have x0: "x \<noteq> 0" by simp
  have "(2::real) powi (e + 1) \<le> 2 powi 1023"
    using assms(4) by (intro power_int_increasing) auto
  then have "\<bar>x\<bar> < 2 ^ 1023" using assms(2) by simp
  then have small: "\<not> 2 ^ 1024 - 2 ^ 970 \<le> \<bar>x\<bar>" by simp
  have ex: "f64_exponent x = e"
    using floor_log2_eqI[OF assms(1,2)] assms(3) by (simp add: f64_exponent_def)
  show ?thesis
    using x0 small by (simp add: f64_round_def ex Let_def round_half_even_unique[OF assms(5)])
qed

lemma f64_round_0: "f64_round 0 = Fin 0"
  by (simp add: f64_round_def)

lemma f64_round_1: "f64_round 1 = Fin 1"
  using f64_round_eqI[of 0 1 "2 ^ 52"] by simp

lemma f64_round_2: "f64_round 2 = Fin 2"
  using f64_round_eqI[of 1 2 "2 ^ 52"] by simp

lemma f64_round_rel:
  assumes "2 powi (- 1022) \<le> \<bar>x\<bar>" "\<bar>x\<bar> \<le> 2 ^ 1023"
  shows "\<exists>r. f64_round x = Fin r \<and> \<bar>r - x\<bar> \<le> \<bar>x\<bar> / 2 ^ 53"
proof -
  have "(0::real) < 2 powi (- 1022)" by simp
  then have "0 < \<bar>x\<bar>" using assms(1) by linarith
  then have x0: "x \<noteq> 0" by simp
  have small: "\<not> 2 ^ 1024 - 2 ^ 970 \<le> \<bar>x\<bar>" using assms(2) by simp
  let ?e = "\<lfloor>log 2 \<bar>x\<bar>\<rfloor>"
  have "- 1022 \<le> ?e"
  proof (rule ccontr)
    assume "\<not> - 1022 \<le> ?e"
    then have "?e + 1 \<le> - 1022" by linarith
    then have "(2::real) powi (?e + 1) \<le> 2 powi (- 1022)"
      by (intro power_int_increasing) auto
    with floor_log2_bounds(2)[OF x0] assms(1) show False by linarith
  qed
  then have ex: "f64_exponent x = ?e" by (simp add: f64_exponent_def)
  let ?ulp = "(2::real) powi (?e - 52)"
  let ?n = "round_half_even (x / ?ulp)"
  have ulp_pos: "0 < ?ulp" by simp
  have r: "f64_round x = Fin (of_int ?n * ?ulp)"
    using x0 small by (simp add: f64_round_def ex Let_def)
  have "of_int ?n * ?ulp - x = (of_int ?n - x / ?ulp) * ?ulp"
    using ulp_pos by (simp add: field_simps)
  then have "\<bar>of_int ?n * ?ulp - x\<bar> = \<bar>of_int ?n - x / ?ulp\<bar> * \<bar>?ulp\<bar>"
    by (simp only: abs_mult)
  also have "\<dots> = \<bar>of_int ?n - x / ?ulp\<bar> * ?ulp"
    using ulp_pos by (simp only: abs_of_pos)
  finally have eq: "\<bar>of_int ?n * ?ulp - x\<bar> = \<bar>of_int ?n - x / ?ulp\<bar> * ?ulp" .
  have "\<bar>of_int ?n - x / ?ulp\<bar> * ?ulp \<le> 1 / 2 * ?ulp"
    using round_half_even_error[of "x / ?ulp"] ulp_pos by (intro mult_right_mono) auto
  also have "\<dots> = 2 powi ?e / 2 ^ 53"
    by (simp add: power_int_diff)
  also have "\<dots> \<le> \<bar>x\<bar> / 2 ^ 53"
    using floor_log2_bounds(1)[OF x0] by (simp add: divide_right_mono)
  finally show ?thesis using r eq by auto
qed

subsection \<open>The norm of the normalized vector\<close>

lemma np_array_float_collect:
  assumes "\<forall>key\<in>set keys. (\<forall>s. features key \<noteq> Some (PyStr s)) \<and> is_f64 (field_value features key)"
  shows "np_array_float float_of_str (collect_vector features keys) =
           Inr (map (\<lambda>key. Fin (field_value features key)) keys)"
  using assms
proof (induction keys)
  case Nil
  then show ?case by simp
next
  case (Cons key keys)
  then have ih: "np_array_float float_of_str (collect_vector features keys) =
           Inr (map (\<lambda>key. Fin (field_value features key)) keys)"
    by simp
  from Cons.prems have ns: "\<And>s. features key \<noteq> Some (PyStr s)"
    and d: "f64_round (field_value features key) = Fin (field_value features key)"
    by (simp_all add: is_f64_def)
  show ?case
  proof (cases "features key")
    case None
    with d show ?thesis by (simp add: ih field_value_def to_float64_def)
  next
    case (Some v)
    show ?thesis
    proof (cases v)
      case (PyBool b)
      with Some d show ?thesis by (simp add: ih field_value_def to_float64_def)
    next
      case (PyNum x)
      with Some d show ?thesis by (simp add: ih field_value_def to_float64_def)
    next
      case (PyStr s)
      with Some ns show ?thesis by simp
    qed
  qed
qed

lemma sum_list_scaled_bounds:
  fixes f g :: "'a \<Rightarrow> real"
  assumes "\<forall>x\<in>set xs. lo * f x \<le> g x \<and> g x \<le> hi * f x"
  shows "lo * (\<Sum>x\<leftarrow>xs. f x) \<le> (\<Sum>x\<leftarrow>xs. g x)" "(\<Sum>x\<leftarrow>xs. g x) \<le> hi * (\<Sum>x\<leftarrow>xs. f x)"
  using assms by (induction xs) (auto simp: algebra_simps add_mono)

lemma sum_list_squares_ge:
  fixes xs :: "real list"
  assumes "x \<in> set xs"
  shows "x\<^sup>2 \<le> (\<Sum>a\<leftarrow>xs. a\<^sup>2)"
  using assms
proof (induction xs)
  case Nil
  then show ?case by simp
next
  case (Cons a xs)
  have nn: "0 \<le> (\<Sum>a\<leftarrow>xs. a\<^sup>2)" by (rule sum_list_nonneg) auto
  from Cons show ?case
  proof (cases "x = a")
    case True
    then show ?thesis using nn by simp
  next
    case False
    with Cons have "x\<^sup>2 \<le> (\<Sum>a\<leftarrow>xs. a\<^sup>2)" by simp
    then show ?thesis by (simp add: add_increasing)
  qed
qed

lemma sum_list_squares_le:
  fixes xs :: "real list"
  assumes "\<forall>x\<in>set xs. x\<^sup>2 \<le> B"
  shows "(\<Sum>a\<leftarrow>xs. a\<^sup>2) \<le> real (length xs) * B"
  using assms by (induction xs) (auto simp: algebra_simps)

lemma square_rel_bounds:
  fixes w q :: real
  assumes "\<bar>w - q\<bar> \<le> \<bar>q\<bar> * u" "0 \<le> u" "u \<le> 1"
  shows "(1 - u)\<^sup>2 * q\<^sup>2 \<le> w\<^sup>2" "w\<^sup>2 \<le> (1 + u)\<^sup>2 * q\<^sup>2"
proof -
  have "\<bar>q\<bar> - \<bar>w\<bar> \<le> \<bar>w - q\<bar>" "\<bar>w\<bar> - \<bar>q\<bar> \<le> \<bar>w - q\<bar>" by linarith+
  then have d: "\<bar>q\<bar> - \<bar>w\<bar> \<le> \<bar>q\<bar> * u" "\<bar>w\<bar> - \<bar>q\<bar> \<le> \<bar>q\<bar> * u"
    using assms(1) by linarith+
  have lo: "(1 - u) * \<bar>q\<bar> \<le> \<bar>w\<bar>" using d(1) by (simp add: algebra_simps)
  have hi: "\<bar>w\<bar> \<le> (1 + u) * \<bar>q\<bar>" using d(2) by (simp add: algebra_simps)
  have "((1 - u) * \<bar>q\<bar>)\<^sup>2 \<le> \<bar>w\<bar>\<^sup>2"
    using lo assms(3) by (intro power_mono) auto
  then show "(1 - u)\<^sup>2 * q\<^sup>2 \<le> w\<^sup>2" by (simp add: power_mult_distrib)
  have "\<bar>w\<bar>\<^sup>2 \<le> ((1 + u) * \<bar>q\<bar>)\<^sup>2"
    using hi by (intro power_mono) auto
  then show "w\<^sup>2 \<le> (1 + u)\<^sup>2 * q\<^sup>2" by (simp add: power_mult_distrib)
qed

lemma tolerance_lower:
  "(1 - 1 / 2 ^ 49)\<^sup>2 \<le> (1 - 1 / 2 ^ 53)\<^sup>2 / ((1 + 1 / 2 ^ 53)\<^sup>2 * (1 + 1 / 2 ^ 49) :: real)"
  by (simp add: power2_eq_square)

lemma tolerance_upper:
  "(1 + 1 / 2 ^ 53)\<^sup>2 / ((1 - 1 / 2 ^ 53)\<^sup>2 * (1 - 1 / 2 ^ 49) :: real) \<le> (1 + 1 / 2 ^ 49)\<^sup>2"
  by (simp add: power2_eq_square)

lemma range_facts:
  "(1::real) / 2 ^ 1001 = (1 / 2 ^ 1000) / 2"
  "2 * (7 * 2 ^ 1000) \<le> (2::real) ^ 1004"
  "(1 / 2 ^ 501)\<^sup>2 \<le> (1::real) / 2 ^ 1001"
  "(2::real) ^ 1004 = (2 ^ 502)\<^sup>2"
  "(2::real) powi (- 1022) \<le> 1 / 2 ^ 501"
  "(2::real) ^ 502 \<le> 2 ^ 1023"
  "(1::real) / 2 ^ 502 = (1 / 2 ^ 501) / 2"
  "2 * (2::real) ^ 502 = 2 ^ 503"
  "(2::real) powi (- 1022) \<le> 1 / 2 ^ 500 / 2 ^ 503"
  "(2::real) ^ 500 / (1 / 2 ^ 502) \<le> 2 ^ 1023"
  "(1 / 2 ^ 500)\<^sup>2 = (1::real) / 2 ^ 1000"
  "((2::real) ^ 500)\<^sup>2 = 2 ^ 1000"
  "(0::real) < 1 / 2 ^ 1000"
  by (simp_all add: power_int_minus_divide power_divide)

lemma sum_list_divide_const:
  fixes f :: "'a \<Rightarrow> real"
  shows "(\<Sum>x\<leftarrow>xs. f x / c) = (\<Sum>x\<leftarrow>xs. f x) / c"
  by (induction xs) (simp_all add: add_divide_distrib)

lemma normalize_core:
  fixes xs :: "real list" and s :: real
  assumes len: "length xs = 7"
    and rng: "\<forall>x\<in>set xs. x = 0 \<or> (1 / 2 ^ 500 \<le> \<bar>x\<bar> \<and> \<bar>x\<bar> \<le> 2 ^ 500)"
    and nz: "\<exists>x\<in>set xs. x \<noteq> 0"
    and s: "\<bar>s - (\<Sum>a\<leftarrow>xs. a\<^sup>2)\<bar> \<le> (\<Sum>a\<leftarrow>xs. a\<^sup>2) / 2 ^ 49"
  shows "\<exists>n ws. f64_sqrt (Fin s) = Fin n \<and> 0 < n \<and>
            map (\<lambda>x. f64_div (Fin x) (Fin n)) xs = map Fin ws \<and>
            length ws = length xs \<and>
            (\<forall>i<length xs. \<bar>ws ! i - xs ! i / n\<bar> \<le> \<bar>xs ! i / n\<bar> / 2 ^ 53) \<and>
            \<bar>sqrt (\<Sum>w\<leftarrow>ws. w\<^sup>2) - 1\<bar> \<le> 1 / 2 ^ 49"
proof -
  define A where "A = (\<Sum>a\<leftarrow>xs. a\<^sup>2)"
  define u :: real where "u = 1 / 2 ^ 53"
  define gam :: real where "gam = 1 / 2 ^ 49"
  have u_bounds: "0 \<le> u" "u \<le> 1" "0 < 1 - u" "0 < 1 + u" by (simp_all add: u_def)
  have gam_bounds: "0 < 1 - gam" "0 < 1 + gam" by (simp_all add: gam_def)
  obtain x0 where x0: "x0 \<in> set xs" "x0 \<noteq> 0" using nz by blast
  then have x0r: "1 / 2 ^ 500 \<le> \<bar>x0\<bar>" using rng by blast
  have "(1 / 2 ^ 500)\<^sup>2 \<le> \<bar>x0\<bar>\<^sup>2" using x0r by (intro power_mono) auto
  then have "1 / 2 ^ 1000 \<le> x0\<^sup>2" by (simp only: range_facts(11) power2_abs)
  moreover have "x0\<^sup>2 \<le> A" unfolding A_def by (rule sum_list_squares_ge[OF x0(1)])
  ultimately have A_lo: "1 / 2 ^ 1000 \<le> A" by (rule order_trans)
  have A_pos: "0 < A" using range_facts(13) A_lo by (rule less_le_trans)
  have sq_hi: "\<forall>x\<in>set xs. x\<^sup>2 \<le> 2 ^ 1000"
  proof
    fix x assume "x \<in> set xs"
    then have "x = 0 \<or> \<bar>x\<bar> \<le> 2 ^ 500" using rng by blast
    then have "\<bar>x\<bar> \<le> 2 ^ 500" by auto
    then have "\<bar>x\<bar>\<^sup>2 \<le> (2 ^ 500)\<^sup>2" by (intro power_mono) auto
    then show "x\<^sup>2 \<le> 2 ^ 1000" by (simp only: range_facts(12) power2_abs)
  qed
  have A_hi: "A \<le> 7 * 2 ^ 1000"
    using sum_list_squares_le[OF sq_hi] unfolding len A_def by simp
  have s': "\<bar>s - A\<bar> \<le> A * gam" using s by (simp add: A_def gam_def)
  have s_lo: "(1 - gam) * A \<le> s" and s_hi: "s \<le> (1 + gam) * A"
    using s' by (simp_all add: algebra_simps abs_le_iff)
  have "A / 2 \<le> (1 - gam) * A" using A_pos by (simp add: gam_def algebra_simps)
  then have s_lo3: "A / 2 \<le> s" using s_lo by (rule order_trans)
  have "1 / 2 ^ 1001 = (1 / 2 ^ 1000) / (2::real)" by (rule range_facts(1))
  also have "\<dots> \<le> A / 2" using A_lo by (rule divide_right_mono) simp
  also note s_lo3
  finally have s_lo2: "1 / 2 ^ 1001 \<le> s" .
  have "(1 + gam) * A \<le> 2 * A" using A_pos by (simp add: gam_def algebra_simps)
  with s_hi have "s \<le> 2 * A" by (rule order_trans)
  also have "\<dots> \<le> 2 * (7 * 2 ^ 1000)" using A_hi by (rule mult_left_mono) simp
  also note range_facts(2)
  finally have s_hi2: "s \<le> 2 ^ 1004" .
  have "0 < A / 2" using A_pos by simp
  then have s_pos: "0 < s" using s_lo3 by (rule less_le_trans)
  define r where "r = sqrt s"
  have r_pos: "0 < r" using s_pos by (simp add: r_def)
  have r_sq: "r\<^sup>2 = s" using s_pos by (simp add: r_def)
  have "(1 / 2 ^ 501)\<^sup>2 \<le> s" using range_facts(3) s_lo2 by (rule order_trans)
  then have r_lo: "1 / 2 ^ 501 \<le> r"
    unfolding r_def by (rule real_le_rsqrt)
  have "s \<le> (2 ^ 502)\<^sup>2" using s_hi2 unfolding range_facts(4) .
  then have r_hi: "r \<le> 2 ^ 502"
    unfolding r_def by (intro real_le_lsqrt) simp_all
  have r_abs: "\<bar>r\<bar> = r" using r_pos by simp
  have "2 powi (- 1022) \<le> \<bar>r\<bar>" "\<bar>r\<bar> \<le> 2 ^ 1023"
    unfolding r_abs
    by (rule order_trans[OF range_facts(5) r_lo], rule order_trans[OF r_hi range_facts(6)])
  then obtain n where n: "f64_round r = Fin n" "\<bar>n - r\<bar> \<le> \<bar>r\<bar> / 2 ^ 53"
    using f64_round_rel by blast
  have n': "\<bar>n - r\<bar> \<le> r * u" using n(2) r_pos by (simp add: u_def)
  have n_lo: "(1 - u) * r \<le> n" and n_hi: "n \<le> (1 + u) * r"
    using n' by (simp_all add: algebra_simps abs_le_iff)
  have "0 < (1 - u) * r" using r_pos u_bounds(3) by (rule mult_pos_pos[rotated])
  then have n_pos: "0 < n" using n_lo by linarith
  have sqrt_s: "f64_sqrt (Fin s) = Fin n" using s_pos n(1) by (simp add: r_def)
  have half: "r / 2 \<le> (1 - u) * r" using r_pos by (simp add: u_def algebra_simps)
  have "1 / 2 ^ 502 = (1 / 2 ^ 501) / (2::real)" by (rule range_facts(7))
  also have "\<dots> \<le> r / 2" using r_lo by (rule divide_right_mono) simp
  also note half
  also note n_lo
  finally have n_lo2: "1 / 2 ^ 502 \<le> n" .
  have twice: "(1 + u) * r \<le> 2 * r" using r_pos by (simp add: u_def algebra_simps)
  note n_hi
  also note twice
  also have "2 * r \<le> 2 * 2 ^ 502" using r_hi by (rule mult_left_mono) simp
  also note range_facts(8)
  finally have n_hi2: "n \<le> 2 ^ 503" .
  have nsq_lo: "(1 - u)\<^sup>2 * s \<le> n\<^sup>2"
  proof -
    have "((1 - u) * r)\<^sup>2 \<le> n\<^sup>2" using n_lo r_pos u_bounds by (intro power_mono) auto
    then show ?thesis by (simp add: power_mult_distrib r_sq)
  qed
  have nsq_hi: "n\<^sup>2 \<le> (1 + u)\<^sup>2 * s"
  proof -
    have "n\<^sup>2 \<le> ((1 + u) * r)\<^sup>2" using n_hi n_pos by (intro power_mono) auto
    then show ?thesis by (simp add: power_mult_distrib r_sq)
  qed
  have nsq_pos: "0 < n\<^sup>2" using n_pos by simp
  have comp: "\<exists>w. f64_div (Fin x) (Fin n) = Fin w \<and> \<bar>w - x / n\<bar> \<le> \<bar>x / n\<bar> * u"
    if "x \<in> set xs" for x
  proof (cases "x = 0")
    case True
    then show ?thesis using n_pos by (simp add: f64_round_0)
  next
    case False
    with that rng have xr: "1 / 2 ^ 500 \<le> \<bar>x\<bar>" "\<bar>x\<bar> \<le> 2 ^ 500" by blast+
    have q: "\<bar>x / n\<bar> = \<bar>x\<bar> / n" using n_pos by simp
    have "1 / 2 ^ 500 / 2 ^ 503 \<le> \<bar>x\<bar> / n"
      using xr(1) n_hi2 n_pos by (intro frac_le) auto
    with range_facts(9) have q_lo: "2 powi (- 1022) \<le> \<bar>x / n\<bar>"
      unfolding q by (rule order_trans)
    have "\<bar>x\<bar> / n \<le> 2 ^ 500 / (1 / 2 ^ 502)"
      using xr(2) n_lo2 by (intro frac_le) auto
    then have q_hi: "\<bar>x / n\<bar> \<le> 2 ^ 1023"
      unfolding q using range_facts(10) by (rule order_trans)
    obtain w where "f64_round (x / n) = Fin w" "\<bar>w - x / n\<bar> \<le> \<bar>x / n\<bar> / 2 ^ 53"
      using f64_round_rel[OF q_lo q_hi] by blast
    then show ?thesis using n_pos by (auto simp: u_def)
  qed
  define val where "val = (\<lambda>v. case v of Fin t \<Rightarrow> t | _ \<Rightarrow> (0::real))"
  define g where "g = (\<lambda>x. val (f64_div (Fin x) (Fin n)))"
  have g: "f64_div (Fin x) (Fin n) = Fin (g x) \<and> \<bar>g x - x / n\<bar> \<le> \<bar>x / n\<bar> * u"
    if "x \<in> set xs" for x
    using comp[OF that] by (auto simp: g_def val_def)
  let ?ws = "map g xs"
  have vec: "map (\<lambda>x. f64_div (Fin x) (Fin n)) xs = map Fin ?ws"
    using g by simp
  have close: "\<forall>i<length xs. \<bar>?ws ! i - xs ! i / n\<bar> \<le> \<bar>xs ! i / n\<bar> / 2 ^ 53"
    using g by (simp add: u_def)
  define W where "W = (\<Sum>x\<leftarrow>xs. (g x)\<^sup>2)"
  define Q where "Q = (\<Sum>x\<leftarrow>xs. (x / n)\<^sup>2)"
  have W_ws: "(\<Sum>w\<leftarrow>?ws. w\<^sup>2) = W" by (simp add: W_def comp_def)
  have per: "\<forall>x\<in>set xs. (1 - u)\<^sup>2 * (x / n)\<^sup>2 \<le> (g x)\<^sup>2 \<and> (g x)\<^sup>2 \<le> (1 + u)\<^sup>2 * (x / n)\<^sup>2"
    using g square_rel_bounds[OF _ u_bounds(1,2)] by blast
  have W_lo: "(1 - u)\<^sup>2 * Q \<le> W" and W_hi: "W \<le> (1 + u)\<^sup>2 * Q"
    unfolding W_def Q_def using sum_list_scaled_bounds[OF per] by blast+
  have Q_eq: "Q = A / n\<^sup>2"
    unfolding Q_def A_def by (simp add: power_divide sum_list_divide_const)
  have c2: "n\<^sup>2 \<le> (1 + u)\<^sup>2 * (1 + gam) * A"
  proof -
    have "(1 + u)\<^sup>2 * s \<le> (1 + u)\<^sup>2 * ((1 + gam) * A)"
      using s_hi by (intro mult_left_mono) auto
    with nsq_hi show ?thesis by (simp add: mult.assoc)
  qed
  have c1: "(1 - u)\<^sup>2 * (1 - gam) * A \<le> n\<^sup>2"
  proof -
    have "(1 - u)\<^sup>2 * ((1 - gam) * A) \<le> (1 - u)\<^sup>2 * s"
      using s_lo by (intro mult_left_mono) auto
    with nsq_lo show ?thesis by (simp add: mult.assoc)
  qed
  have c1_pos: "0 < (1 - u)\<^sup>2 * (1 - gam)" and c2_pos: "0 < (1 + u)\<^sup>2 * (1 + gam)"
    using u_bounds gam_bounds by simp_all
  have d2: "0 < (1 + u)\<^sup>2 * (1 + gam) * A" using c2_pos A_pos by (rule mult_pos_pos)
  have d1: "0 < (1 - u)\<^sup>2 * (1 - gam) * A" using c1_pos A_pos by (rule mult_pos_pos)
  have A_nn: "0 \<le> A" using A_pos by simp
  have cancel: "A / (c * A) = 1 / c" for c using A_pos by simp
  have "1 / ((1 + u)\<^sup>2 * (1 + gam)) = A / ((1 + u)\<^sup>2 * (1 + gam) * A)"
    by (rule cancel[symmetric])
  also have "\<dots> \<le> A / n\<^sup>2"
    using c2 A_nn mult_pos_pos[OF d2 nsq_pos] by (rule divide_left_mono)
  finally have Q_lo: "1 / ((1 + u)\<^sup>2 * (1 + gam)) \<le> Q" unfolding Q_eq .
  have "A / n\<^sup>2 \<le> A / ((1 - u)\<^sup>2 * (1 - gam) * A)"
    using c1 A_nn mult_pos_pos[OF nsq_pos d1] by (rule divide_left_mono)
  also have "\<dots> = 1 / ((1 - u)\<^sup>2 * (1 - gam))" by (rule cancel)
  finally have Q_hi: "Q \<le> 1 / ((1 - u)\<^sup>2 * (1 - gam))" unfolding Q_eq .
  have sq_nn: "0 \<le> (1 - u)\<^sup>2" "0 \<le> (1 + u)\<^sup>2" by simp_all
  have "(1 - 1 / 2 ^ 49)\<^sup>2 \<le> (1 - u)\<^sup>2 / ((1 + u)\<^sup>2 * (1 + gam))"
    unfolding u_def gam_def by (rule tolerance_lower)
  also have "\<dots> = (1 - u)\<^sup>2 * (1 / ((1 + u)\<^sup>2 * (1 + gam)))" by simp
  also have "\<dots> \<le> (1 - u)\<^sup>2 * Q" using Q_lo sq_nn(1) by (rule mult_left_mono)
  also note W_lo
  finally have W_L: "(1 - 1 / 2 ^ 49)\<^sup>2 \<le> W" .
  note W_hi
  also have "(1 + u)\<^sup>2 * Q \<le> (1 + u)\<^sup>2 * (1 / ((1 - u)\<^sup>2 * (1 - gam)))"
    using Q_hi sq_nn(2) by (rule mult_left_mono)
  also have "\<dots> = (1 + u)\<^sup>2 / ((1 - u)\<^sup>2 * (1 - gam))" by simp
  also have "\<dots> \<le> (1 + 1 / 2 ^ 49)\<^sup>2"
    unfolding u_def gam_def by (rule tolerance_upper)
  finally have W_U: "W \<le> (1 + 1 / 2 ^ 49)\<^sup>2" .
  have "sqrt ((1 - 1 / 2 ^ 49)\<^sup>2) \<le> sqrt W" using W_L by (rule real_sqrt_le_mono)
  then have lo: "1 - 1 / 2 ^ 49 \<le> sqrt W" by simp
  have "sqrt W \<le> sqrt ((1 + 1 / 2 ^ 49)\<^sup>2)" using W_U by (rule real_sqrt_le_mono)
  then have hi: "sqrt W \<le> 1 + 1 / 2 ^ 49" by simp
  have norm: "\<bar>sqrt (\<Sum>w\<leftarrow>?ws. w\<^sup>2) - 1\<bar> \<le> 1 / 2 ^ 49"
    unfolding W_ws abs_le_iff using lo hi by linarith
  show ?thesis
    using sqrt_s n_pos vec close norm by (intro exI[of _ n] exI[of _ ?ws]) simp
qed

subsection \<open>The sequential dot product\<close>

lemma f64_round_nonneg:
  assumes "x = 0 \<or> (2 powi (- 1022) \<le> x \<and> x \<le> 2 ^ 1023)"
  shows "\<exists>r. f64_round x = Fin r \<and> (1 - 1 / 2 ^ 53) * x \<le> r \<and> r \<le> (1 + 1 / 2 ^ 53) * x"
proof (cases "x = 0")
  case True
  then show ?thesis by (simp add: f64_round_0)
next
  case False
  with assms have r: "2 powi (- 1022) \<le> x" "x \<le> 2 ^ 1023" by blast+
  have "(0::real) < 2 powi (- 1022)" by simp
  then have pos: "0 < x" using r(1) by (rule less_le_trans)
  then have ax: "\<bar>x\<bar> = x" by simp
  obtain y where y: "f64_round x = Fin y" "\<bar>y - x\<bar> \<le> \<bar>x\<bar> / 2 ^ 53"
    using f64_round_rel[of x] r unfolding ax by blast
  have "\<bar>y - x\<bar> \<le> x * (1 / 2 ^ 53)" using y(2) unfolding ax by simp
  then have "(1 - 1 / 2 ^ 53) * x \<le> y" "y \<le> (1 + 1 / 2 ^ 53) * x"
    unfolding abs_le_iff by (simp_all add: algebra_simps)
  with y(1) show ?thesis by blast
qed

lemma unit_roundoff_powers:
  fixes u :: real
  assumes u: "u = 1 / 2 ^ 53" and j: "j \<le> 8"
  shows "1 / 2 \<le> (1 - u) ^ j" "(1 - u) ^ j \<le> 1" "1 \<le> (1 + u) ^ j" "(1 + u) ^ j \<le> 2"
proof -
  have b: "0 \<le> 1 - u" "1 - u \<le> 1" "1 \<le> 1 + u" by (simp_all add: u)
  have "(1 - u) ^ 8 \<le> (1 - u) ^ j" using j b(1,2) by (rule power_decreasing)
  moreover have "1 / 2 \<le> (1 - u) ^ 8" unfolding u by (simp add: power_divide)
  ultimately show "1 / 2 \<le> (1 - u) ^ j" by (rule order_trans[rotated])
  show "(1 - u) ^ j \<le> 1" using b(1,2) by (rule power_le_one)
  show "1 \<le> (1 + u) ^ j" using b(3) by (rule one_le_power)
  have "(1 + u) ^ j \<le> (1 + u) ^ 8" using j b(3) by (rule power_increasing)
  moreover have "(1 + u) ^ 8 \<le> 2" unfolding u by (simp add: power_divide)
  ultimately show "(1 + u) ^ j \<le> 2" by (rule order_trans)
qed

lemma square_range:
  fixes x :: real
  assumes "x = 0 \<or> (1 / 2 ^ 500 \<le> \<bar>x\<bar> \<and> \<bar>x\<bar> \<le> 2 ^ 500)"
  shows "x * x = 0 \<or> (1 / 2 ^ 1000 \<le> x * x \<and> x * x \<le> 2 ^ 1000)"
proof (cases "x = 0")
  case True
  then show ?thesis by simp
next
  case False
  with assms have r: "1 / 2 ^ 500 \<le> \<bar>x\<bar>" "\<bar>x\<bar> \<le> 2 ^ 500" by blast+
  have "(1 / 2 ^ 500)\<^sup>2 \<le> \<bar>x\<bar>\<^sup>2" using r(1) by (intro power_mono) auto
  then have lo: "1 / 2 ^ 1000 \<le> x * x"
    by (simp only: range_facts(11) power2_abs power2_eq_square[symmetric])
  have "\<bar>x\<bar>\<^sup>2 \<le> (2 ^ 500)\<^sup>2" using r(2) by (intro power_mono) auto
  then have hi: "x * x \<le> 2 ^ 1000"
    by (simp only: range_facts(12) power2_abs power2_eq_square[symmetric])
  from lo hi show ?thesis by blast
qed

lemma sum_range_facts:
  "(2::real) powi (- 1022) \<le> 1 / 2 * (1 / 2 ^ 1000)"
  "2 * (7 * (2::real) ^ 1000) \<le> 2 ^ 1023"
  "(2::real) powi (- 1022) \<le> 1 / 2 ^ 1000"
  "(2::real) ^ 1000 \<le> 2 ^ 1023"
  "(0::real) \<le> 2 ^ 1000"
  by (simp_all add: power_int_minus_divide)

lemma ddot_fold:
  fixes xs :: "real list" and u :: real
  assumes u: "u = 1 / 2 ^ 53"
    and rng: "\<forall>x\<in>set xs. x = 0 \<or> (1 / 2 ^ 500 \<le> \<bar>x\<bar> \<and> \<bar>x\<bar> \<le> 2 ^ 500)"
    and k: "k + length xs \<le> 7"
    and S0: "S0 = 0 \<or> 1 / 2 ^ 1000 \<le> S0" "S0 \<le> real k * 2 ^ 1000"
    and a: "(1 - u) ^ (k + 1) * S0 \<le> a" "a \<le> (1 + u) ^ (k + 1) * S0"
  shows "\<exists>s. fold (\<lambda>xi acc. f64_add acc (f64_mul xi xi)) (map Fin xs) (Fin a) = Fin s \<and>
             (1 - u) ^ (k + length xs + 1) * (S0 + (\<Sum>x\<leftarrow>xs. x\<^sup>2)) \<le> s \<and>
             s \<le> (1 + u) ^ (k + length xs + 1) * (S0 + (\<Sum>x\<leftarrow>xs. x\<^sup>2))"
  using rng k S0 a
proof (induction xs arbitrary: k S0 a)
  case Nil
  then show ?case by simp
next
  case (Cons x xs)
  define q where "q = x * x"
  define S1 where "S1 = S0 + q"
  have k8: "k + 1 \<le> 8" "k + 2 \<le> 8" using Cons.prems(2) by simp_all
  have k7: "real k + 1 \<le> 7" using Cons.prems(2) by simp
  note lo1 = unit_roundoff_powers[OF u k8(1)]
  have ub: "0 \<le> 1 - u" "1 - u \<le> 1" "1 \<le> 1 + u" "0 \<le> 1 + u" by (simp_all add: u)
  have S0_nn: "0 \<le> S0"
  proof -
    have "(0::real) \<le> 1 / 2 ^ 1000" by simp
    with Cons.prems(3) show ?thesis by (auto intro: order_trans)
  qed
  have qr: "q = 0 \<or> (1 / 2 ^ 1000 \<le> q \<and> q \<le> 2 ^ 1000)"
    unfolding q_def using Cons.prems(1) by (intro square_range) simp
  have q_nn: "0 \<le> q" unfolding q_def by simp
  have q_hi: "q \<le> 2 ^ 1000" using qr sum_range_facts(5) by auto
  have "q = 0 \<or> (2 powi (- 1022) \<le> q \<and> q \<le> 2 ^ 1023)"
    using qr sum_range_facts(3,4) by (auto intro: order_trans)
  from f64_round_nonneg[OF this]
  obtain p where p: "f64_round q = Fin p" "(1 - u) * q \<le> p" "p \<le> (1 + u) * q"
    unfolding u by blast
  define t where "t = a + p"
  have "(1 - u) ^ (k + 1) * q \<le> (1 - u) * q"
  proof -
    have "(1 - u) ^ (k + 1) \<le> (1 - u) ^ 1" using _ ub(1,2) by (rule power_decreasing) simp
    then show ?thesis using q_nn by (intro mult_right_mono) simp_all
  qed
  with p(2) have "(1 - u) ^ (k + 1) * q \<le> p" by (rule order_trans[rotated])
  with Cons.prems(5) have "(1 - u) ^ (k + 1) * S0 + (1 - u) ^ (k + 1) * q \<le> a + p"
    by (rule add_mono)
  then have t_lo: "(1 - u) ^ (k + 1) * S1 \<le> t"
    unfolding S1_def t_def by (simp only: distrib_left)
  have "(1 + u) * q \<le> (1 + u) ^ (k + 1) * q"
  proof -
    have "(1 + u) ^ 1 \<le> (1 + u) ^ (k + 1)" using _ ub(3) by (rule power_increasing) simp
    then show ?thesis using q_nn by (intro mult_right_mono) simp_all
  qed
  with p(3) have "p \<le> (1 + u) ^ (k + 1) * q" by (rule order_trans)
  with Cons.prems(6) have "a + p \<le> (1 + u) ^ (k + 1) * S0 + (1 + u) ^ (k + 1) * q"
    by (rule add_mono)
  then have t_hi: "t \<le> (1 + u) ^ (k + 1) * S1"
    unfolding S1_def t_def by (simp only: distrib_left)
  have S1_nn: "0 \<le> S1" unfolding S1_def using S0_nn q_nn by simp
  have S1_lo: "S1 = 0 \<or> 1 / 2 ^ 1000 \<le> S1"
  proof (cases "S0 = 0 \<and> q = 0")
    case True
    then show ?thesis by (simp add: S1_def)
  next
    case False
    then have "1 / 2 ^ 1000 \<le> S0 \<or> 1 / 2 ^ 1000 \<le> q" using Cons.prems(3) qr by blast
    then have "1 / 2 ^ 1000 \<le> S0 + q" using S0_nn q_nn by linarith
    then show ?thesis by (simp only: S1_def simp_thms)
  qed
  have S1_hi: "S1 \<le> real (k + 1) * 2 ^ 1000"
  proof -
    have "S0 + q \<le> real k * 2 ^ 1000 + 2 ^ 1000" using Cons.prems(4) q_hi by (rule add_mono)
    also have "\<dots> = real (k + 1) * 2 ^ 1000" by (simp add: algebra_simps)
    finally show ?thesis unfolding S1_def .
  qed
  have t_range: "t = 0 \<or> (2 powi (- 1022) \<le> t \<and> t \<le> 2 ^ 1023)"
  proof (cases "S1 = 0")
    case True
    with t_lo t_hi have "t = 0" by simp
    then show ?thesis by simp
  next
    case False
    with S1_lo have l: "1 / 2 ^ 1000 \<le> S1" by simp
    have "1 / 2 * (1 / 2 ^ 1000) \<le> (1 - u) ^ (k + 1) * S1"
      using lo1(1) l zero_le_power[OF ub(1)] by (rule mult_mono) simp
    with sum_range_facts(1) have "2 powi (- 1022) \<le> (1 - u) ^ (k + 1) * S1"
      by (rule order_trans)
    then have a1: "2 powi (- 1022) \<le> t" using t_lo by (rule order_trans)
    have "real (k + 1) * 2 ^ 1000 \<le> 7 * 2 ^ 1000"
      using k7 by (intro mult_right_mono) simp_all
    with S1_hi have h: "S1 \<le> 7 * 2 ^ 1000" by (rule order_trans)
    have "(1 + u) ^ (k + 1) * S1 \<le> 2 * (7 * 2 ^ 1000)"
      using lo1(4) h _ S1_nn by (rule mult_mono) simp
    then have "(1 + u) ^ (k + 1) * S1 \<le> 2 ^ 1023"
      using sum_range_facts(2) by (rule order_trans)
    with t_hi have a2: "t \<le> 2 ^ 1023" by (rule order_trans)
    from a1 a2 show ?thesis by blast
  qed
  have t_nn: "0 \<le> t"
  proof -
    have "0 \<le> (1 - u) ^ (k + 1) * S1"
      using zero_le_power[OF ub(1)] S1_nn by (rule mult_nonneg_nonneg)
    then show ?thesis using t_lo by (rule order_trans)
  qed
  from f64_round_nonneg[OF t_range]
  obtain a' where a': "f64_round t = Fin a'" "(1 - u) * t \<le> a'" "a' \<le> (1 + u) * t"
    unfolding u by blast
  have "(1 - u) * ((1 - u) ^ (k + 1) * S1) \<le> (1 - u) * t"
    using t_lo ub(1) by (rule mult_left_mono)
  then have "(1 - u) * ((1 - u) ^ (k + 1) * S1) \<le> a'" using a'(2) by (rule order_trans)
  then have a'_lo: "(1 - u) ^ (k + 1 + 1) * S1 \<le> a'" by (simp only: power_Suc Suc_eq_plus1[symmetric] mult.assoc)
  have "(1 + u) * t \<le> (1 + u) * ((1 + u) ^ (k + 1) * S1)"
    using t_hi ub(4) by (rule mult_left_mono)
  with a'(3) have "a' \<le> (1 + u) * ((1 + u) ^ (k + 1) * S1)" by (rule order_trans)
  then have a'_hi: "a' \<le> (1 + u) ^ (k + 1 + 1) * S1" by (simp only: power_Suc Suc_eq_plus1[symmetric] mult.assoc)
  have rng': "\<forall>x\<in>set xs. x = 0 \<or> (1 / 2 ^ 500 \<le> \<bar>x\<bar> \<and> \<bar>x\<bar> \<le> 2 ^ 500)"
    using Cons.prems(1) by simp
  have k': "k + 1 + length xs \<le> 7" using Cons.prems(2) by simp
  from Cons.IH[OF rng' k' S1_lo S1_hi a'_lo a'_hi]
  obtain s where s: "fold (\<lambda>xi acc. f64_add acc (f64_mul xi xi)) (map Fin xs) (Fin a') = Fin s"
    "(1 - u) ^ (k + 1 + length xs + 1) * (S1 + (\<Sum>x\<leftarrow>xs. x\<^sup>2)) \<le> s"
    "s \<le> (1 + u) ^ (k + 1 + length xs + 1) * (S1 + (\<Sum>x\<leftarrow>xs. x\<^sup>2))"
    by blast
  have step: "f64_add (Fin a) (f64_mul (Fin x) (Fin x)) = Fin a'"
    using p(1) a'(1) by (simp add: q_def t_def)
  have e1: "k + 1 + length xs + 1 = k + length (x # xs) + 1" by simp
  have e2: "S1 + (\<Sum>x\<leftarrow>xs. x\<^sup>2) = S0 + (\<Sum>x\<leftarrow>x # xs. x\<^sup>2)"
    by (simp add: S1_def q_def power2_eq_square)
  have "fold (\<lambda>xi acc. f64_add acc (f64_mul xi xi)) (map Fin (x # xs)) (Fin a) = Fin s"
    using s(1) step by simp
  with s(2,3) show ?case unfolding e1 e2 by blast
qed

lemma ddot_sequential_accurate:
  fixes xs :: "real list"
  assumes rng: "\<forall>x\<in>set xs. x = 0 \<or> (1 / 2 ^ 500 \<le> \<bar>x\<bar> \<and> \<bar>x\<bar> \<le> 2 ^ 500)"
    and len: "length xs \<le> 7"
  shows "ddot_accurate ddot_sequential xs"
proof -
  define u :: real where "u = 1 / 2 ^ 53"
  define A where "A = (\<Sum>x\<leftarrow>xs. x\<^sup>2)"
  have A_nn: "0 \<le> A" unfolding A_def by (rule sum_list_nonneg) auto
  have "\<exists>s. fold (\<lambda>xi acc. f64_add acc (f64_mul xi xi)) (map Fin xs) (Fin 0) = Fin s \<and>
             (1 - u) ^ (0 + length xs + 1) * (0 + (\<Sum>x\<leftarrow>xs. x\<^sup>2)) \<le> s \<and>
             s \<le> (1 + u) ^ (0 + length xs + 1) * (0 + (\<Sum>x\<leftarrow>xs. x\<^sup>2))"
    using u_def rng by (rule ddot_fold) (simp_all add: len)
  then obtain s where s: "ddot_sequential (map Fin xs) = Fin s"
    "(1 - u) ^ (length xs + 1) * A \<le> s" "s \<le> (1 + u) ^ (length xs + 1) * A"
    unfolding ddot_sequential_def A_def by auto
  have ub: "0 \<le> 1 - u" "1 - u \<le> 1" "1 \<le> 1 + u" by (simp_all add: u_def)
  have l8: "length xs + 1 \<le> 8" using len by simp
  have "(1 - u) ^ 8 \<le> (1 - u) ^ (length xs + 1)" using l8 ub(1,2) by (rule power_decreasing)
  moreover have "1 - 1 / 2 ^ 49 \<le> (1 - u) ^ 8" unfolding u_def by (simp add: power_divide)
  ultimately have "1 - 1 / 2 ^ 49 \<le> (1 - u) ^ (length xs + 1)" by (rule order_trans[rotated])
  then have "(1 - 1 / 2 ^ 49) * A \<le> (1 - u) ^ (length xs + 1) * A"
    using A_nn by (rule mult_right_mono)
  then have lo: "(1 - 1 / 2 ^ 49) * A \<le> s" using s(2) by (rule order_trans)
  have "(1 + u) ^ (length xs + 1) \<le> (1 + u) ^ 8" using l8 ub(3) by (rule power_increasing)
  moreover have "(1 + u) ^ 8 \<le> 1 + 1 / 2 ^ 49" unfolding u_def by (simp add: power_divide)
  ultimately have "(1 + u) ^ (length xs + 1) \<le> 1 + 1 / 2 ^ 49" by (rule order_trans)
  then have "(1 + u) ^ (length xs + 1) * A \<le> (1 + 1 / 2 ^ 49) * A"
    using A_nn by (rule mult_right_mono)
  with s(3) have hi: "s \<le> (1 + 1 / 2 ^ 49) * A" by (rule order_trans)
  have "\<bar>s - A\<bar> \<le> A / 2 ^ 49"
    unfolding abs_le_iff using lo hi by (simp add: algebra_simps)
  with s(1) show ?thesis unfolding ddot_accurate_def A_def by blast
qed

subsection \<open>Three records\<close>

lemma f64_round_tiny:
  assumes "x \<noteq> 0" "\<bar>x\<bar> < 2 powi (- 1075)"
  shows "f64_round x = Fin 0"
proof -
  have "\<bar>x\<bar> < 2 ^ 1023"
  proof -
    have "(2::real) powi (- 1075) \<le> 2 powi 1023" by (intro power_int_increasing) auto
    with assms(2) show ?thesis by simp
  qed
  then have small: "\<not> 2 ^ 1024 - 2 ^ 970 \<le> \<bar>x\<bar>" by simp
  have "\<lfloor>log 2 \<bar>x\<bar>\<rfloor> \<le> - 1022"
  proof (rule ccontr)
    assume "\<not> \<lfloor>log 2 \<bar>x\<bar>\<rfloor> \<le> - 1022"
    then have "- 1075 \<le> \<lfloor>log 2 \<bar>x\<bar>\<rfloor>" by linarith
    then have "(2::real) powi (- 1075) \<le> 2 powi \<lfloor>log 2 \<bar>x\<bar>\<rfloor>"
      by (intro power_int_increasing) auto
    with floor_log2_bounds(1)[OF assms(1)] assms(2) show False by linarith
  qed
  then have ex: "f64_exponent x = - 1022" by (simp add: f64_exponent_def)
  have "\<bar>x / 2 powi (- 1074)\<bar> = \<bar>x\<bar> / 2 powi (- 1074)" by simp
  also have "\<dots> < 2 powi (- 1075) / 2 powi (- 1074)"
    using assms(2) by (intro divide_strict_right_mono) auto
  also have "\<dots> = 1 / 2" by (simp add: power_int_minus_divide)
  finally have "\<bar>x / 2 powi (- 1074) - of_int 0\<bar> < 1 / 2" by simp
  then have "round_half_even (x / 2 powi (- 1074)) = 0" by (rule round_half_even_unique)
  then show ?thesis
    using assms(1) small by (simp add: f64_round_def ex Let_def)
qed

lemma f64_round_sqrt_2: "f64_round (sqrt 2) = Fin (6369051672525773 / 4503599627370496)"
proof -
  have lo: "(12738103345051545 / 9007199254740992 :: real) < sqrt 2"
    by (rule real_less_rsqrt) (simp add: power2_eq_square)
  have hi: "sqrt 2 < (12738103345051547 / 9007199254740992 :: real)"
    by (rule real_less_lsqrt) (simp_all add: power2_eq_square)
  have a: "2 powi 0 \<le> \<bar>sqrt 2\<bar>" using lo by simp
  have b: "\<bar>sqrt 2\<bar> < 2 powi (0 + 1)" using hi by simp
  have e: "sqrt 2 / 2 powi (0 - 52) = sqrt 2 * 4503599627370496"
    by (simp add: power_int_minus_divide)
  have n: "real_of_int 6369051672525773 = 6369051672525773" by simp
  have c: "\<bar>sqrt 2 / 2 powi (0 - 52) - of_int 6369051672525773\<bar> < 1 / 2"
    unfolding e n using lo hi by linarith
  show ?thesis
    using f64_round_eqI[OF a b _ _ c] by (simp add: power_int_minus_divide)
qed

lemma f64_round_inv_sqrt_2:
  "f64_round (4503599627370496 / 6369051672525773) = Fin (1592262918131443 / 2251799813685248)"
proof -
  have a: "2 powi (- 1) \<le> \<bar>4503599627370496 / 6369051672525773 :: real\<bar>"
    by (simp add: power_int_minus_divide)
  have b: "\<bar>4503599627370496 / 6369051672525773 :: real\<bar> < 2 powi (- 1 + 1)" by simp
  have c: "\<bar>4503599627370496 / 6369051672525773 / 2 powi (- 1 - 52)
            - of_int 6369051672525772 :: real\<bar> < 1 / 2"
    by (simp add: power_int_minus_divide abs_less_iff)
  show ?thesis
    using f64_round_eqI[OF a b _ _ c] by (simp add: power_int_minus_divide)
qed

lemma f64_round_huge: "f64_round (2 ^ 600) = Fin (2 ^ 600)"
proof -
  have a: "2 powi 600 \<le> \<bar>2 ^ 600 :: real\<bar>" by simp
  have b: "\<bar>2 ^ 600 :: real\<bar> < 2 powi (600 + 1)" by simp
  have c: "\<bar>2 ^ 600 / 2 powi (600 - 52) - of_int (2 ^ 52) :: real\<bar> < 1 / 2" by simp
  show ?thesis
    using f64_round_eqI[OF a b _ _ c] by simp
qed

lemma f64_round_small: "f64_round (1 / 2 ^ 600) = Fin (1 / 2 ^ 600)"
proof -
  have a: "2 powi (- 600) \<le> \<bar>1 / 2 ^ 600 :: real\<bar>" by (simp add: power_int_minus_divide)
  have b: "\<bar>1 / 2 ^ 600 :: real\<bar> < 2 powi (- 600 + 1)" by (simp add: power_int_minus_divide)
  have c: "\<bar>1 / 2 ^ 600 / 2 powi (- 600 - 52) - of_int (2 ^ 52) :: real\<bar> < 1 / 2"
    by (simp add: power_int_minus_divide)
  show ?thesis
    using f64_round_eqI[OF a b _ _ c] by (simp add: power_int_minus_divide)
qed

lemma f64_mul_huge: "f64_mul (Fin (2 ^ 600)) (Fin (2 ^ 600)) = PInf"
  by (simp add: f64_round_def)

lemma f64_mul_small: "f64_mul (Fin (1 / 2 ^ 600)) (Fin (1 / 2 ^ 600)) = Fin 0"
proof -
  have "f64_round (1 / 2 ^ 600 * (1 / 2 ^ 600)) = Fin 0"
    by (rule f64_round_tiny) (simp_all add: power_int_minus_divide)
  then show ?thesis by (simp only: f64_mul.simps)
qed

lemma f64_zero_ops:
  "f64_mul (Fin 0) (Fin 0) = Fin 0"
  "f64_add (Fin 0) (Fin 0) = Fin 0"
  "f64_add (Fin 0) (Fin 1) = Fin 1"
  "f64_add (Fin 1) (Fin 1) = Fin 2"
  "f64_add (Fin 2) (Fin 0) = Fin 2"
  "f64_mul (Fin 1) (Fin 1) = Fin 1"
  "f64_sqrt (Fin 0) = Fin 0"
  "f64_div (Fin 0) (Fin 1) = Fin 0"
  by (simp_all add: f64_round_0 f64_round_1 f64_round_2)

lemma collect_unit_pair:
  "collect_vector unit_pair_features (feature_keys QuantumPrep_init) =
     [PyNum 1, PyNum 1, PyNum 0, PyNum 0, PyNum 0, PyNum 0, PyNum 0]"
  by (simp add: unit_pair_features_def QuantumPrep_init_def Let_def)

lemma collect_huge:
  "collect_vector huge_features (feature_keys QuantumPrep_init) =
     [PyNum (2 ^ 600), PyNum 0, PyNum 0, PyNum 0, PyNum 0, PyNum 0, PyNum 0]"
  by (simp add: huge_features_def QuantumPrep_init_def Let_def)

lemma collect_tiny:
  "collect_vector tiny_features (feature_keys QuantumPrep_init) =
     [PyNum (1 / 2 ^ 600), PyNum 0, PyNum 0, PyNum 0, PyNum 0, PyNum 0, PyNum 0]"
  by (simp add: tiny_features_def QuantumPrep_init_def Let_def)

lemma array_unit_pair:
  "np_array_float float_of_str [PyNum 1, PyNum 1, PyNum 0, PyNum 0, PyNum 0, PyNum 0, PyNum 0] =
     Inr [Fin 1, Fin 1, Fin 0, Fin 0, Fin 0, Fin 0, Fin 0]"
  by (simp add: to_float64_def f64_round_0 f64_round_1)

lemma array_huge:
  "np_array_float float_of_str
     [PyNum (2 ^ 600), PyNum 0, PyNum 0, PyNum 0, PyNum 0, PyNum 0, PyNum 0] =
     Inr [Fin (2 ^ 600), Fin 0, Fin 0, Fin 0, Fin 0, Fin 0, Fin 0]"
  by (simp only: np_array_float.simps to_float64_def pyval.case f64_round_0 f64_round_huge
        f64.case sum.case map_sum.simps id_apply)

lemma array_tiny:
  "np_array_float float_of_str
     [PyNum (1 / 2 ^ 600), PyNum 0, PyNum 0, PyNum 0, PyNum 0, PyNum 0, PyNum 0] =
     Inr [Fin (1 / 2 ^ 600), Fin 0, Fin 0, Fin 0, Fin 0, Fin 0, Fin 0]"
  by (simp only: np_array_float.simps to_float64_def pyval.case f64_round_0 f64_round_small
        f64.case sum.case map_sum.simps id_apply)

lemma ddot_unit_pair:
  "ddot_sequential [Fin 1, Fin 1, Fin 0, Fin 0, Fin 0, Fin 0, Fin 0] = Fin 2"
  by (simp only: ddot_sequential_def fold_simps id_apply comp_apply f64_zero_ops)

lemma ddot_huge:
  "ddot_sequential [Fin (2 ^ 600), Fin 0, Fin 0, Fin 0, Fin 0, Fin 0, Fin 0] = PInf"
  by (simp only: ddot_sequential_def fold_simps id_apply comp_apply f64_zero_ops f64_mul_huge
        f64_add.simps)

lemma ddot_tiny:
  "ddot_sequential [Fin (1 / 2 ^ 600), Fin 0, Fin 0, Fin 0, Fin 0, Fin 0, Fin 0] = Fin 0"
  by (simp only: ddot_sequential_def fold_simps id_apply comp_apply f64_zero_ops f64_mul_small)

lemma normalize_unit_pair:
  "normalize_features float_of_str ddot_sequential QuantumPrep_init unit_pair_features =
     Inr (map Fin [1592262918131443 / 2251799813685248, 1592262918131443 / 2251799813685248,
                   0, 0, 0, 0, 0])"
proof -
  have n: "linalg_norm ddot_sequential [Fin 1, Fin 1, Fin 0, Fin 0, Fin 0, Fin 0, Fin 0] =
             Fin (6369051672525773 / 4503599627370496)"
    unfolding linalg_norm_def ddot_unit_pair by (simp add: f64_round_sqrt_2)
  have d1: "f64_div (Fin 1) (Fin (6369051672525773 / 4503599627370496)) =
              Fin (1592262918131443 / 2251799813685248)"
    by (simp add: f64_round_inv_sqrt_2)
  have d0: "f64_div (Fin 0) (Fin (6369051672525773 / 4503599627370496)) = Fin 0"
    by (simp add: f64_round_0)
  have nz: "Fin (6369051672525773 / 4503599627370496) \<noteq> Fin 0" by simp
  show ?thesis
    unfolding normalize_features_def collect_unit_pair array_unit_pair
    by (simp only: sum.case Let_def n nz if_False list.map d1 d0)
qed

lemma normalize_huge:
  "normalize_features float_of_str ddot_sequential QuantumPrep_init huge_features =
     Inr (map Fin [0, 0, 0, 0, 0, 0, 0])"
proof -
  have n: "linalg_norm ddot_sequential
             [Fin (2 ^ 600), Fin 0, Fin 0, Fin 0, Fin 0, Fin 0, Fin 0] = PInf"
    unfolding linalg_norm_def ddot_huge by simp
  have nz: "PInf \<noteq> Fin 0" by simp
  show ?thesis
    unfolding normalize_features_def collect_huge array_huge
    by (simp only: sum.case Let_def n nz if_False list.map f64_div.simps)
qed

lemma normalize_tiny:
  "normalize_features float_of_str ddot_sequential QuantumPrep_init tiny_features =
     Inr (map Fin [1 / 2 ^ 600, 0, 0, 0, 0, 0, 0])"
proof -
  have n: "linalg_norm ddot_sequential
             [Fin (1 / 2 ^ 600), Fin 0, Fin 0, Fin 0, Fin 0, Fin 0, Fin 0] = Fin 0"
    unfolding linalg_norm_def ddot_tiny by (rule f64_zero_ops(7))
  have d: "f64_div (Fin (1 / 2 ^ 600)) (Fin 1) = Fin (1 / 2 ^ 600)"
    using f64_round_small by simp
  show ?thesis
    unfolding normalize_features_def collect_tiny array_tiny
    by (simp only: sum.case Let_def n simp_thms if_True list.map d f64_zero_ops(8))
qed

lemma unit_pair_norm_below_1:
  "sqrt (\<Sum>w\<leftarrow>[1592262918131443 / 2251799813685248, 1592262918131443 / 2251799813685248,
                 0, 0, 0, 0, 0]. w\<^sup>2) < 1"
proof -
  have "(\<Sum>w\<leftarrow>[1592262918131443 / 2251799813685248, 1592262918131443 / 2251799813685248,
                 0, 0, 0, 0, 0 :: real]. w\<^sup>2) < 1"
    by (simp add: power2_eq_square)
  then show ?thesis by (simp only: real_sqrt_lt_1_iff)
qed

lemma f64_round_200: "f64_round 200 = Fin 200"
  using f64_round_eqI[of 7 200 "200 * 2 ^ 45"] by simp

lemma scenario_field_values:
  "field_values QuantumPrep_init scenario_features = [2, 1, 0, 1, 0, 0, 200]"
  by (simp add: field_values_def QuantumPrep_init_def scenario_features_def field_value_def)

subsection \<open>The claim\<close>

text \<open>
  Claim C7, as stated, fails: the vector is computed in binary64 arithmetic and its
  Euclidean norm need not be exactly 1, and a non-zero record can give the zero vector.
  On the record of one join and one subquery the array is 1, 1, 0, 0, 0, 0, 0; its dot
  product with itself is exactly 2 in whatever order it is summed, the norm is the number
  nearest to the square root of 2, \<open>6369051672525773 / 2 ^ 52\<close>, and the two non-zero
  elements of the result are \<open>1592262918131443 / 2 ^ 51\<close> (0.7071067811865475), whose
  squares sum to less than 1. On the record of \<open>2 ^ 600\<close> joins the square overflows, the
  norm is infinite and the result is the zero vector although a coerced value is not 0.
  On the record with \<open>2 ^ -600\<close> the square underflows to 0, the norm 0 is replaced by 1
  and the result is the input, of norm \<open>2 ^ -600\<close>.
\<close>

theorem normalize_features_unit_norm_counterexample:
  "field_values QuantumPrep_init unit_pair_features = [1, 1, 0, 0, 0, 0, 0] \<and>
   normalize_features (\<lambda>s. None) ddot_sequential QuantumPrep_init unit_pair_features =
     Inr (map Fin [1592262918131443 / 2251799813685248, 1592262918131443 / 2251799813685248,
                   0, 0, 0, 0, 0]) \<and>
   sqrt (\<Sum>w\<leftarrow>[1592262918131443 / 2251799813685248, 1592262918131443 / 2251799813685248,
                 0, 0, 0, 0, 0]. w\<^sup>2) < 1 \<and>
   field_values QuantumPrep_init huge_features = [2 ^ 600, 0, 0, 0, 0, 0, 0] \<and>
   is_f64 (2 ^ 600) \<and>
   normalize_features (\<lambda>s. None) ddot_sequential QuantumPrep_init huge_features =
     Inr (map Fin [0, 0, 0, 0, 0, 0, 0]) \<and>
   field_values QuantumPrep_init tiny_features = [1 / 2 ^ 600, 0, 0, 0, 0, 0, 0] \<and>
   is_f64 (1 / 2 ^ 600) \<and>
   normalize_features (\<lambda>s. None) ddot_sequential QuantumPrep_init tiny_features =
     Inr (map Fin [1 / 2 ^ 600, 0, 0, 0, 0, 0, 0])"
proof (intro conjI)
  show "field_values QuantumPrep_init unit_pair_features = [1, 1, 0, 0, 0, 0, 0]"
    by (simp add: field_values_def QuantumPrep_init_def unit_pair_features_def field_value_def)
  show "field_values QuantumPrep_init huge_features = [2 ^ 600, 0, 0, 0, 0, 0, 0]"
    by (simp add: field_values_def QuantumPrep_init_def huge_features_def field_value_def)
  show "field_values QuantumPrep_init tiny_features = [1 / 2 ^ 600, 0, 0, 0, 0, 0, 0]"
    by (simp add: field_values_def QuantumPrep_init_def tiny_features_def field_value_def)
  show "is_f64 (2 ^ 600)" unfolding is_f64_def by (rule f64_round_huge)
  show "is_f64 (1 / 2 ^ 600)" unfolding is_f64_def by (rule f64_round_small)
qed (rule normalize_unit_pair unit_pair_norm_below_1 normalize_huge normalize_tiny)+

text \<open>
  Claim C7, amended. Take a feature record whose seven fields hold no string and whose
  coerced values are binary64 numbers, each 0 or of a magnitude from \<open>2 ^ -500\<close> to
  \<open>2 ^ 500\<close>, and a dot product within the relative error \<open>2 ^ -49\<close> (the sequential
  loop is one on such values: \<open>ddot_sequential_accurate\<close>). Then \<open>normalize_features\<close>
  raises no error and returns 7 finite numbers. When every coerced value is 0 they are
  all 0. Otherwise their Euclidean norm, the exact square root of the exact sum of their
  squares, is within \<open>2 ^ -49\<close> of 1, the computed norm is a positive finite number and
  every element is within the relative error \<open>2 ^ -53\<close> of the coerced value divided by
  the computed norm.
\<close>

theorem normalize_features_near_unit_norm:
  assumes typed: "\<forall>key\<in>set (feature_keys QuantumPrep_init). \<forall>s. features key \<noteq> Some (PyStr s)"
    and dbl: "\<forall>x\<in>set (field_values QuantumPrep_init features). is_f64 x"
    and rng: "\<forall>x\<in>set (field_values QuantumPrep_init features).
                x = 0 \<or> (1 / 2 ^ 500 \<le> \<bar>x\<bar> \<and> \<bar>x\<bar> \<le> 2 ^ 500)"
    and dot: "ddot_accurate ddot (field_values QuantumPrep_init features)"
  shows "\<exists>ws. normalize_features float_of_str ddot QuantumPrep_init features = Inr (map Fin ws) \<and>
           length ws = 7 \<and>
           (if \<forall>x\<in>set (field_values QuantumPrep_init features). x = 0
            then ws = replicate 7 0
            else \<bar>sqrt (\<Sum>w\<leftarrow>ws. w\<^sup>2) - 1\<bar> \<le> 1 / 2 ^ 49 \<and>
                 (\<exists>n. linalg_norm ddot (map Fin (field_values QuantumPrep_init features)) = Fin n \<and>
                      0 < n \<and>
                      (\<forall>i<7. \<bar>ws ! i - field_values QuantumPrep_init features ! i / n\<bar>
                               \<le> \<bar>field_values QuantumPrep_init features ! i / n\<bar> / 2 ^ 53)))"
proof -
  define keys where "keys = feature_keys QuantumPrep_init"
  define xs where "xs = field_values QuantumPrep_init features"
  have xs_map: "xs = map (field_value features) keys"
    by (simp add: xs_def keys_def field_values_def)
  have len: "length xs = 7"
    by (simp add: xs_map keys_def QuantumPrep_init_def)
  have pre: "\<forall>key\<in>set keys. (\<forall>s. features key \<noteq> Some (PyStr s)) \<and> is_f64 (field_value features key)"
    using typed dbl unfolding xs_def[symmetric] keys_def[symmetric] xs_map by simp
  have arr: "np_array_float float_of_str (collect_vector features keys) = Inr (map Fin xs)"
    using np_array_float_collect[OF pre] by (simp add: xs_map comp_def)
  obtain s where s: "ddot (map Fin xs) = Fin s"
    "\<bar>s - (\<Sum>a\<leftarrow>xs. a\<^sup>2)\<bar> \<le> (\<Sum>a\<leftarrow>xs. a\<^sup>2) / 2 ^ 49"
    using dot unfolding ddot_accurate_def xs_def[symmetric] by blast
  have rng': "\<forall>x\<in>set xs. x = 0 \<or> (1 / 2 ^ 500 \<le> \<bar>x\<bar> \<and> \<bar>x\<bar> \<le> 2 ^ 500)"
    using rng unfolding xs_def[symmetric] .
  have run: "normalize_features float_of_str ddot QuantumPrep_init features =
               (let norm = linalg_norm ddot (map Fin xs);
                    norm = (if norm = Fin 0 then Fin 1 else norm)
                in Inr (map (\<lambda>x. f64_div x norm) (map Fin xs)))"
    unfolding normalize_features_def keys_def[symmetric] arr by simp
  show ?thesis
    unfolding xs_def[symmetric]
  proof (cases "\<forall>x\<in>set xs. x = 0")
    case True
    then have "replicate (length xs) 0 = xs" by (intro replicate_length_same) simp
    then have xs0: "xs = replicate 7 0" using len by simp
    have "(\<Sum>a\<leftarrow>xs. a\<^sup>2) = 0" by (simp add: xs0 sum_list_replicate)
    with s(2) have "s = 0" by simp
    then have norm: "linalg_norm ddot (map Fin xs) = Fin 0"
      by (simp add: linalg_norm_def s(1) f64_round_0)
    have "normalize_features float_of_str ddot QuantumPrep_init features =
            Inr (map Fin (replicate 7 0))"
      unfolding run norm by (simp add: xs0 f64_round_0)
    then show "\<exists>ws. normalize_features float_of_str ddot QuantumPrep_init features = Inr (map Fin ws) \<and>
           length ws = 7 \<and>
           (if \<forall>x\<in>set xs. x = 0
            then ws = replicate 7 0
            else \<bar>sqrt (\<Sum>w\<leftarrow>ws. w\<^sup>2) - 1\<bar> \<le> 1 / 2 ^ 49 \<and>
                 (\<exists>n. linalg_norm ddot (map Fin xs) = Fin n \<and> 0 < n \<and>
                      (\<forall>i<7. \<bar>ws ! i - xs ! i / n\<bar> \<le> \<bar>xs ! i / n\<bar> / 2 ^ 53)))"
      using True by (intro exI[of _ "replicate 7 0"]) simp
  next
    case False
    then have nz: "\<exists>x\<in>set xs. x \<noteq> 0" by blast
    from normalize_core[OF len rng' nz s(2)]
    obtain n ws where n: "f64_sqrt (Fin s) = Fin n" "0 < n"
      and vec: "map (\<lambda>x. f64_div (Fin x) (Fin n)) xs = map Fin ws"
      and lws: "length ws = length xs"
      and close: "\<forall>i<length xs. \<bar>ws ! i - xs ! i / n\<bar> \<le> \<bar>xs ! i / n\<bar> / 2 ^ 53"
      and unit: "\<bar>sqrt (\<Sum>w\<leftarrow>ws. w\<^sup>2) - 1\<bar> \<le> 1 / 2 ^ 49"
      by blast
    have norm: "linalg_norm ddot (map Fin xs) = Fin n"
      by (simp only: linalg_norm_def s(1) n(1))
    have "normalize_features float_of_str ddot QuantumPrep_init features = Inr (map Fin ws)"
      unfolding run norm using n(2) vec by (simp add: comp_def)
    then show "\<exists>ws. normalize_features float_of_str ddot QuantumPrep_init features = Inr (map Fin ws) \<and>
           length ws = 7 \<and>
           (if \<forall>x\<in>set xs. x = 0
            then ws = replicate 7 0
            else \<bar>sqrt (\<Sum>w\<leftarrow>ws. w\<^sup>2) - 1\<bar> \<le> 1 / 2 ^ 49 \<and>
                 (\<exists>n. linalg_norm ddot (map Fin xs) = Fin n \<and> 0 < n \<and>
                      (\<forall>i<7. \<bar>ws ! i - xs ! i / n\<bar> \<le> \<bar>xs ! i / n\<bar> / 2 ^ 53)))"
      using False lws len close unit norm n(2) by (intro exI[of _ ws]) auto
  qed
qed

theorem normalize_features_near_unit_norm_witness:
  "field_values QuantumPrep_init scenario_features = [2, 1, 0, 1, 0, 0, 200] \<and>
   ddot_accurate ddot_sequential (field_values QuantumPrep_init scenario_features) \<and>
   (\<exists>ws. normalize_features (\<lambda>s. None) ddot_sequential QuantumPrep_init scenario_features =
            Inr (map Fin ws) \<and>
         length ws = 7 \<and> \<bar>sqrt (\<Sum>w\<leftarrow>ws. w\<^sup>2) - 1\<bar> \<le> 1 / 2 ^ 49)"
proof -
  let ?xs = "field_values QuantumPrep_init scenario_features"
  have typed: "\<forall>key\<in>set (feature_keys QuantumPrep_init).
                 \<forall>s. scenario_features key \<noteq> Some (PyStr s)"
    by (simp add: QuantumPrep_init_def scenario_features_def)
  have dbl: "\<forall>x\<in>set ?xs. is_f64 x"
    unfolding scenario_field_values
    by (simp add: is_f64_def f64_round_0 f64_round_1 f64_round_2 f64_round_200)
  have rng: "\<forall>x\<in>set ?xs. x = 0 \<or> (1 / 2 ^ 500 \<le> \<bar>x\<bar> \<and> \<bar>x\<bar> \<le> 2 ^ 500)"
    unfolding scenario_field_values by simp
  have dot: "ddot_accurate ddot_sequential ?xs"
    using rng by (rule ddot_sequential_accurate) (simp add: scenario_field_values)
  have nz: "\<not> (\<forall>x\<in>set ?xs. x = 0)"
    unfolding scenario_field_values by simp
  from normalize_features_near_unit_norm[OF typed dbl rng dot, of "\<lambda>s. None"] nz
  have "\<exists>ws. normalize_features (\<lambda>s. None) ddot_sequential QuantumPrep_init scenario_features =
            Inr (map Fin ws) \<and>
         length ws = 7 \<and> \<bar>sqrt (\<Sum>w\<leftarrow>ws. w\<^sup>2) - 1\<bar> \<le> 1 / 2 ^ 49"
    by (simp only: if_False) blast
  with scenario_field_values dot show ?thesis by blast
qed

end
